theory Spec2Isabelle
  imports Main "HOL-Library.Word" "HOL-Library.Sublist"
begin

section \<open>The interactive debug-proxy shell (src/ffi/examples/debug_proxy.c)\<close>

text \<open>
  The driver is one C function, \<open>main\<close>, which calls the idevice library and libc.
  Neither is part of the sources: every answer of the outside (a return code, a handle
  written through an out-parameter, the bytes on standard input) is a field of a
  \<open>world\<close>, and a run of \<open>main\<close> in a world yields the list of events it performs, in
  order, and how it ends.
\<close>

definition MAX_COMMAND_LENGTH :: nat where
  "MAX_COMMAND_LENGTH = 1024"

subsection \<open>C strings and the libc functions of the loop\<close>

text \<open>A C string is the content of a buffer up to its first NUL byte.\<close>

definition c_str :: "char list \<Rightarrow> string" where
  "c_str buf = takeWhile (\<lambda>c. c \<noteq> CHR 0x00) buf"

text \<open>\<open>strcspn(s, reject)\<close>: the length of the longest prefix of \<open>s\<close> free of bytes of \<open>reject\<close>.\<close>

definition strcspn :: "string \<Rightarrow> string \<Rightarrow> nat" where
  "strcspn s reject = length (takeWhile (\<lambda>c. c \<notin> set reject) s)"

text \<open>
  \<open>fgets(buf, n, stream)\<close> stores at most \<open>n - 1\<close> bytes, stops after a newline (which it
  stores) or at end of file, and returns NULL when end of file comes before any byte.
  The result is the bytes stored (a NUL follows them in the buffer) and the rest of
  the stream.
\<close>

definition fgets :: "nat \<Rightarrow> char list \<Rightarrow> (char list \<times> char list) option" where
  "fgets n stream =
     (if stream = [] then None
      else (let k = min (n - 1) (Suc (length (takeWhile (\<lambda>c. c \<noteq> CHR ''\<newline>'') stream)))
            in Some (take k stream, drop k stream)))"

text \<open>Line 153, \<open>command[strcspn(command, "\n")] = '\0'\<close>: the string now ends there.\<close>

definition remove_newline :: "string \<Rightarrow> string" where
  "remove_newline command = take (strcspn command ''\<newline>'') command"

text \<open>
  \<open>strtok(str, delim)\<close> with its hidden save pointer made explicit: the third argument
  is the string the save pointer points to, the second component of the result the one
  it points to afterwards. With \<open>str = NULL\<close> (\<open>None\<close>) the scan starts at the save
  pointer. Leading delimiters are skipped; at the end of the string the result is NULL;
  otherwise the token runs to the next delimiter, which is overwritten with NUL, and the
  save pointer is put behind it.
\<close>

definition strtok :: "string option \<Rightarrow> string \<Rightarrow> string \<Rightarrow> string option \<times> string" where
  "strtok str delim saved =
     (let s = dropWhile (\<lambda>c. c \<in> set delim) (case str of Some s0 \<Rightarrow> s0 | None \<Rightarrow> saved) in
      if s = [] then (None, [])
      else (let token = takeWhile (\<lambda>c. c \<notin> set delim) s;
                rest = dropWhile (\<lambda>c. c \<notin> set delim) s
            in (Some token, if rest = [] then [] else tl rest)))"

subsection \<open>Splitting a command line (lines 160 to 179)\<close>

text \<open>
  The inner \<open>while (token != NULL && argc < 15)\<close>; \<open>argv\<close> holds the entries filled so
  far, so \<open>argc\<close> is its length.
\<close>

function split_arguments :: "string option \<Rightarrow> string \<Rightarrow> string list \<Rightarrow> string list" where
  "split_arguments token saved argv =
     (case token of
        None \<Rightarrow> argv
      | Some t \<Rightarrow>
          if length argv < 15
          then (case strtok None '' '' saved of
                  (token', saved') \<Rightarrow> split_arguments token' saved' (argv @ [t]))
          else argv)"
  by pat_completeness auto
termination
  by (relation "measure (\<lambda>(token, saved, argv). 15 - length argv)") auto

declare split_arguments.simps [simp del]

text \<open>
  The three arguments of the call of \<open>debugserver_command_new\<close>: the name (NULL when the
  line has no token), the argument vector (NULL in the \<open>else\<close> branch) and the count.
\<close>

definition parse_command :: "string \<Rightarrow> string option \<times> string list option \<times> nat" where
  "parse_command command =
     (case strtok (Some command) '' '' [] of
        (name, saved) \<Rightarrow>
          (case strtok None [] saved of
             (args, saved') \<Rightarrow>
               (case args of
                  None \<Rightarrow> (name, None, 0)
                | Some a \<Rightarrow>
                    if a \<noteq> []
                    then (case strtok (Some a) '' '' saved' of
                            (token, saved'') \<Rightarrow>
                              (let argv = split_arguments token saved'' []
                               in (name, Some argv, length argv)))
                    else (name, None, 0))))"

subsection \<open>Events and the world\<close>

text \<open>
  \<open>IdeviceErrorCode\<close> is an enum of idevice.h. The driver compares a code with
  \<open>IdeviceSuccess\<close> and prints it with \<open>%d\<close>, nothing more, so every other code is
  kept as the number printed.
\<close>

datatype IdeviceErrorCode = IdeviceSuccess | IdeviceFailure int

text \<open>Handles are opaque pointers: a number each. NULL is \<open>Null\<close>.\<close>

datatype val =
    Null
  | Ptr nat
  | Str string
  | Strs "string list"
  | Num int
  | U16 "16 word"
  | Code IdeviceErrorCode
  | Sym string

text \<open>The functions \<open>main\<close> calls, under their C names.\<close>

datatype api =
    Idevice_init_logger
  | Inet_pton
  | Idevice_pairing_file_read
  | Idevice_pairing_file_free
  | Idevice_tcp_provider_new
  | Idevice_provider_free
  | Core_device_proxy_connect
  | Core_device_proxy_get_server_rsd_port
  | Core_device_proxy_create_tcp_adapter
  | Core_device_proxy_free
  | Adapter_connect
  | Adapter_close
  | Adapter_free
  | Rsd_handshake_new
  | Rsd_handshake_free
  | Debug_proxy_connect_rsd
  | Debug_proxy_free
  | Debug_proxy_send_command
  | Debug_proxy_read_response
  | Debugserver_command_new
  | Debugserver_command_free
  | Idevice_string_free
  | Fflush
  | Fgets

text \<open>
  \<open>Call f args rets\<close>: \<open>f\<close> was called with \<open>args\<close> and came back with \<open>rets\<close>, its
  return value followed by what its out-parameter holds afterwards. \<open>Printf\<close> and
  \<open>Fprintf_stderr\<close> keep the format and its arguments.
\<close>

datatype event =
    Call api "val list" "val list"
  | Printf string "val list"
  | Fprintf_stderr string "val list"

datatype outcome = Returned int | Pending

type_synonym answer = "IdeviceErrorCode \<times> string option"

text \<open>
  What the outside answers. The setup calls happen at most once each, so one answer
  each (the code returned and the value of the out-parameter after the call). The calls
  of the loop happen any number of times: their answers are lists, read front to back,
  one entry per call. A list holds the answers seen so far; a call that finds its list
  empty has not come back yet, and the run is \<open>Pending\<close> there. A run that never ends
  (a device that always has one more reply) is seen through its beginnings: each is the
  run of the world whose lists stop there. A code that is not \<open>IdeviceSuccess\<close> may
  come with any value of the out-parameter. Two calls return a status that \<open>main\<close>
  discards: \<open>idevice_init_logger\<close> (a status of the logger, kept as its number) and
  \<open>adapter_close\<close> (an \<open>IdeviceErrorCode\<close>); the world has both. The release functions
  return nothing.
\<close>

record world =
  argv :: "string list"
  init_logger_result :: int
  inet_pton_result :: int
  pairing_file_read_result :: "IdeviceErrorCode \<times> nat"
  tcp_provider_new_result :: "IdeviceErrorCode \<times> nat"
  core_device_proxy_connect_result :: "IdeviceErrorCode \<times> nat"
  get_server_rsd_port_result :: "IdeviceErrorCode \<times> 16 word"
  create_tcp_adapter_result :: "IdeviceErrorCode \<times> nat"
  adapter_connect_result :: "IdeviceErrorCode \<times> nat"
  rsd_handshake_new_result :: "IdeviceErrorCode \<times> nat"
  adapter_close_result :: IdeviceErrorCode
  debug_proxy_connect_rsd_result :: "IdeviceErrorCode \<times> nat"
  stdin :: "char list"
  command_new_results :: "nat option list"
  send_command_results :: "answer list"
  read_response_results :: "answer list"

definition str_val :: "string option \<Rightarrow> val" where
  "str_val s = (case s of None \<Rightarrow> Null | Some x \<Rightarrow> Str x)"

definition strs_val :: "string list option \<Rightarrow> val" where
  "strs_val s = (case s of None \<Rightarrow> Null | Some x \<Rightarrow> Strs x)"

definition ptr_val :: "nat option \<Rightarrow> val" where
  "ptr_val p = (case p of None \<Rightarrow> Null | Some x \<Rightarrow> Ptr x)"

definition prepend :: "event list \<Rightarrow> event list \<times> 'a \<Rightarrow> event list \<times> 'a" where
  "prepend t r = (t @ fst r, snd r)"

subsection \<open>The driver\<close>

definition print_usage :: "string option \<Rightarrow> event list" where
  "print_usage program_name =
     [Printf ''Usage: %s <device_ip> [pairing_file]\<newline>'' [str_val program_name],
      Printf ''Example: %s 10.0.0.1 pairing.plist\<newline>'' [str_val program_name]]"

text \<open>
  Lines 204 to 211, \<open>while (true)\<close> around \<open>debug_proxy_read_response\<close>. The result is
  the events, the answers left, and whether the loop was left (\<open>False\<close>: the next call
  has not come back).
\<close>

fun drain :: "nat \<Rightarrow> answer list \<Rightarrow> event list \<times> answer list \<times> bool" where
  "drain debug_proxy [] = ([], [], False)"
| "drain debug_proxy ((err, response) # reads) =
     (if err \<noteq> IdeviceSuccess \<or> response = None
      then ([Call Debug_proxy_read_response [Ptr debug_proxy] [Code err, str_val response]],
            reads, True)
      else (case drain debug_proxy reads of
              (t, reads', left) \<Rightarrow>
                (Call Debug_proxy_read_response [Ptr debug_proxy] [Code err, str_val response]
                 # Printf ''%s\<newline>'' [str_val response]
                 # Call Idevice_string_free [str_val response] []
                 # t, reads', left)))"

text \<open>
  The variables of the loop that change: the flag \<open>running\<close>, what is left of standard
  input, and the answers not yet used.
\<close>

record shell_state =
  running :: bool
  input :: "char list"
  command_answers :: "nat option list"
  send_answers :: "answer list"
  read_answers :: "answer list"

text \<open>
  How one pass through the body ends: at the loop test again (the end of the body or
  \<open>continue\<close>), at \<open>break\<close>, or inside a call that has not come back.
\<close>

datatype control = Next | Break | Blocked

text \<open>The body of \<open>while (running)\<close>, lines 145 to 211.\<close>

definition shell_body :: "nat \<Rightarrow> shell_state \<Rightarrow> event list \<times> control \<times> shell_state" where
  "shell_body debug_proxy s =
     (let t0 = [Printf ''debug> '' [], Call Fflush [Sym ''stdout''] []] in
      case fgets MAX_COMMAND_LENGTH (input s) of
        None \<Rightarrow>
          (t0 @ [Call Fgets [Num (int MAX_COMMAND_LENGTH), Sym ''stdin''] [Null]], Break, s)
      | Some (buf, rest) \<Rightarrow>
          (let t1 = t0 @ [Call Fgets [Num (int MAX_COMMAND_LENGTH), Sym ''stdin''] [Str buf]];
               command = remove_newline (c_str buf);
               s1 = s\<lparr>input := rest\<rparr>
           in if command = ''quit'' then (t1, Next, s1\<lparr>running := False\<rparr>)
              else (case parse_command command of
                (name, args, argc) \<Rightarrow>
                  (case command_answers s1 of
                     [] \<Rightarrow> (t1, Blocked, s1)
                   | cmd # cmds \<Rightarrow>
                       (let t2 = t1 @ [Call Debugserver_command_new
                                         [str_val name, strs_val args, Num (int argc)]
                                         [ptr_val cmd]];
                            s2 = s1\<lparr>command_answers := cmds\<rparr>
                        in case cmd of
                             None \<Rightarrow>
                               (t2 @ [Fprintf_stderr ''Failed to create command\<newline>'' []],
                                Next, s2)
                           | Some c \<Rightarrow>
                               (case send_answers s2 of
                                  [] \<Rightarrow> (t2, Blocked, s2)
                                | (err, response) # sends \<Rightarrow>
                                    (let t3 = t2 @ [Call Debug_proxy_send_command
                                                      [Ptr debug_proxy, Ptr c]
                                                      [Code err, str_val response],
                                                    Call Debugserver_command_free [Ptr c] []];
                                         s3 = s2\<lparr>send_answers := sends\<rparr>
                                     in if err \<noteq> IdeviceSuccess
                                        then (t3 @ [Fprintf_stderr
                                                      ''Command failed with error: %d\<newline>''
                                                      [Code err]],
                                              Next, s3)
                                        else (let t4 = t3 @
                                                    (case response of
                                                       Some r \<Rightarrow>
                                                         [Printf ''%s\<newline>'' [Str r],
                                                          Call Idevice_string_free [Str r] []]
                                                     | None \<Rightarrow>
                                                         [Printf ''(no response)\<newline>'' []])
                                              in case drain debug_proxy (read_answers s3) of
                                                   (t, reads, left) \<Rightarrow>
                                                     (t4 @ t,
                                                      if left then Next else Blocked,
                                                      s3\<lparr>read_answers := reads\<rparr>)))))))))"

text \<open>
  \<open>while (running)\<close>, lines 144 to 212: the events, and whether the loop was left
  (\<open>False\<close>: the run is inside a call that has not come back).
\<close>

function shell :: "nat \<Rightarrow> shell_state \<Rightarrow> event list \<times> bool" where
  "shell debug_proxy s =
     (if \<not> running s then ([], True)
      else (case shell_body debug_proxy s of
              (t, Break, s') \<Rightarrow> (t, True)
            | (t, Blocked, s') \<Rightarrow> (t, False)
            | (t, Next, s') \<Rightarrow> prepend t (shell debug_proxy s')))"
  by pat_completeness auto
termination
  by (relation "measure (\<lambda>(debug_proxy, s). if running s then Suc (length (input s)) else 0)")
     (auto simp: shell_body_def fgets_def MAX_COMMAND_LENGTH_def Let_def
           split: option.splits list.splits if_splits prod.splits)

declare shell.simps [simp del]

text \<open>
  \<open>argv[i]\<close>: the C runtime puts NULL at \<open>argv[argc]\<close>.
\<close>

definition nth_arg :: "string list \<Rightarrow> nat \<Rightarrow> string option" where
  "nth_arg args i = (if i < length args then Some (args ! i) else None)"

text \<open>
  \<open>main\<close> is modelled in two parts, cut where the source has its banner
  \<open>Interactive Shell\<close>. \<open>main_setup\<close> is lines 18 to 133: it ends with the value of a
  \<open>return\<close> (\<open>Inl\<close>), or with the handles \<open>adapter\<close>, \<open>handshake\<close> and \<open>debug_proxy\<close> that
  the rest of \<open>main\<close> uses (\<open>Inr\<close>). \<open>argc\<close> is the length of \<open>argv\<close>. The socket address
  is built from \<open>device_ip\<close> and the constant \<open>LOCKDOWN_PORT\<close> of idevice.h, and is passed
  on as \<open>Sym ''addr''\<close>.
\<close>

definition main_setup :: "world \<Rightarrow> event list \<times> (int + nat \<times> nat \<times> nat)" where
  "main_setup w =
     (let argc = length (argv w);
          t = [Call Idevice_init_logger [Sym ''Info'', Sym ''Disabled'', Null]
                 [Num (init_logger_result w)]]
      in if argc < 2 then (t @ print_usage (nth_arg (argv w) 0), Inl 1) else
     (let device_ip = nth_arg (argv w) 1;
          pairing_file = (if argc > 2 then nth_arg (argv w) 2 else Some ''pairing.plist'');
          t = t @ [Printf ''=== Setting up CoreDeviceProxy ===\<newline>'' [],
                   Call Inet_pton [Sym ''AF_INET'', str_val device_ip] [Num (inet_pton_result w)]]
      in if inet_pton_result w \<noteq> 1
         then (t @ [Fprintf_stderr ''Invalid IP address\<newline>'' []], Inl 1) else
     (case pairing_file_read_result w of (err, pairing) \<Rightarrow>
      let t = t @ [Call Idevice_pairing_file_read [str_val pairing_file] [Code err, Ptr pairing]]
      in if err \<noteq> IdeviceSuccess
         then (t @ [Fprintf_stderr ''Failed to read pairing file: %d\<newline>'' [Code err]],
               Inl 1) else
     (case tcp_provider_new_result w of (err, tcp_provider) \<Rightarrow>
      let t = t @ [Call Idevice_tcp_provider_new
                     [Sym ''addr'', Ptr pairing, Str ''DebugProxyShell'']
                     [Code err, Ptr tcp_provider]]
      in if err \<noteq> IdeviceSuccess
         then (t @ [Fprintf_stderr ''Failed to create TCP provider: %d\<newline>'' [Code err],
                    Call Idevice_pairing_file_free [Ptr pairing] []],
               Inl 1) else
     (case core_device_proxy_connect_result w of (err, core_device) \<Rightarrow>
      let t = t @ [Call Core_device_proxy_connect [Ptr tcp_provider] [Code err, Ptr core_device]]
      in if err \<noteq> IdeviceSuccess
         then (t @ [Fprintf_stderr ''Failed to connect to CoreDeviceProxy: %d\<newline>'' [Code err],
                    Call Idevice_provider_free [Ptr tcp_provider] []],
               Inl 1) else
     (let t = t @ [Call Idevice_provider_free [Ptr tcp_provider] []] in
      case get_server_rsd_port_result w of (err, rsd_port) \<Rightarrow>
      let t = t @ [Call Core_device_proxy_get_server_rsd_port [Ptr core_device]
                     [Code err, U16 rsd_port]]
      in if err \<noteq> IdeviceSuccess
         then (t @ [Fprintf_stderr ''Failed to get server RSD port: %d\<newline>'' [Code err],
                    Call Core_device_proxy_free [Ptr core_device] []],
               Inl 1) else
     (let t = t @ [Printf ''Server RSD Port: %d\<newline>'' [U16 rsd_port],
                   Printf ''\<newline>=== Creating TCP Tunnel Adapter ===\<newline>'' []] in
      case create_tcp_adapter_result w of (err, adapter) \<Rightarrow>
      let t = t @ [Call Core_device_proxy_create_tcp_adapter [Ptr core_device]
                     [Code err, Ptr adapter]]
      in if err \<noteq> IdeviceSuccess
         then (t @ [Fprintf_stderr ''Failed to create TCP adapter: %d\<newline>'' [Code err],
                    Call Core_device_proxy_free [Ptr core_device] []],
               Inl 1) else
     (case adapter_connect_result w of (err, stream) \<Rightarrow>
      let t = t @ [Call Adapter_connect [Ptr adapter, U16 rsd_port] [Code err, Ptr stream]]
      in if err \<noteq> IdeviceSuccess
         then (t @ [Fprintf_stderr ''Failed to connect to RSD port: %d\<newline>'' [Code err],
                    Call Adapter_free [Ptr adapter] []],
               Inl 1) else
     (let t = t @ [Printf ''Successfully connected to RSD port\<newline>'' [],
                   Printf ''\<newline>=== Performing RSD Handshake ===\<newline>'' []] in
      case rsd_handshake_new_result w of (err, handshake) \<Rightarrow>
      let t = t @ [Call Rsd_handshake_new [Ptr stream] [Code err, Ptr handshake]]
      in if err \<noteq> IdeviceSuccess
         then (t @ [Fprintf_stderr ''Failed to perform RSD handshake: %d\<newline>'' [Code err],
                    Call Adapter_close [Ptr stream] [Code (adapter_close_result w)],
                    Call Adapter_free [Ptr adapter] []],
               Inl 1) else
     (let t = t @ [Printf ''\<newline>=== Setting up Debug Proxy ===\<newline>'' []] in
      case debug_proxy_connect_rsd_result w of (err, debug_proxy) \<Rightarrow>
      let t = t @ [Call Debug_proxy_connect_rsd [Ptr adapter, Ptr handshake]
                     [Code err, Ptr debug_proxy]]
      in if err \<noteq> IdeviceSuccess
         then (t @ [Fprintf_stderr ''Failed to create debug proxy client: %d\<newline>'' [Code err],
                    Call Rsd_handshake_free [Ptr handshake] [],
                    Call Adapter_free [Ptr adapter] []],
               Inl 1)
         else (t, Inr (adapter, handshake, debug_proxy))))))))))))"

text \<open>The variables of the loop as line 141 to 144 leave them.\<close>

definition initial_shell_state :: "world \<Rightarrow> shell_state" where
  "initial_shell_state w =
     \<lparr>running = True, input = stdin w,
      command_answers = command_new_results w,
      send_answers = send_command_results w,
      read_answers = read_response_results w\<rparr>"

text \<open>Lines 214 to 222.\<close>

definition cleanup :: "nat \<Rightarrow> nat \<Rightarrow> nat \<Rightarrow> event list" where
  "cleanup debug_proxy handshake adapter =
     [Call Debug_proxy_free [Ptr debug_proxy] [],
      Call Rsd_handshake_free [Ptr handshake] [],
      Call Adapter_free [Ptr adapter] [],
      Printf ''\<newline>Debug session ended\<newline>'' []]"

text \<open>
  \<open>main\<close>: \<open>main_setup\<close>, then lines 135 to 223. A run whose loop is inside a call that has
  not come back is \<open>Pending\<close>.
\<close>

definition main :: "world \<Rightarrow> event list \<times> outcome" where
  "main w =
     (case main_setup w of
        (t, Inl code) \<Rightarrow> (t, Returned code)
      | (t, Inr (adapter, handshake, debug_proxy)) \<Rightarrow>
          (let t = t @ [Printf ''\<newline>=== Starting Interactive Debug Shell ===\<newline>'' [],
                        Printf ''Type GDB debugserver commands or 'quit' to exit\<newline>\<newline>'' []]
           in case shell debug_proxy (initial_shell_state w) of
                (ts, left) \<Rightarrow>
                  if left then (t @ ts @ cleanup debug_proxy handshake adapter, Returned 0)
                  else (t @ ts, Pending)))"

subsection \<open>Notions the properties are stated with\<close>

text \<open>
  The space-delimited tokens of a line, as the specification speaks of them: the line is
  cut at every space, and the pieces that are not empty are its tokens.
\<close>

fun split_spaces :: "string \<Rightarrow> string list" where
  "split_spaces [] = [[]]"
| "split_spaces (c # cs) =
     (if c = CHR '' '' then [] # split_spaces cs
      else (case split_spaces cs of [] \<Rightarrow> [[c]] | w # ws \<Rightarrow> (c # w) # ws))"

definition space_tokens :: "string \<Rightarrow> string list" where
  "space_tokens s = filter (\<lambda>w. w \<noteq> []) (split_spaces s)"

text \<open>The function an event calls, the code it returned, whether that code is a failure.\<close>

fun called :: "event \<Rightarrow> api option" where
  "called (Call f args rets) = Some f"
| "called (Printf fmt args) = None"
| "called (Fprintf_stderr fmt args) = None"

fun returned_code :: "event \<Rightarrow> IdeviceErrorCode option" where
  "returned_code (Call f args (Code c # rets)) = Some c"
| "returned_code e = None"

definition failed :: "event \<Rightarrow> bool" where
  "failed e = (case returned_code e of Some c \<Rightarrow> c \<noteq> IdeviceSuccess | None \<Rightarrow> False)"

text \<open>The functions a trace calls, in order.\<close>

fun calls :: "event list \<Rightarrow> api list" where
  "calls [] = []"
| "calls (Call f args rets # t) = f # calls t"
| "calls (Printf fmt args # t) = calls t"
| "calls (Fprintf_stderr fmt args # t) = calls t"

text \<open>
  \<open>always_followed R t\<close>: every event of \<open>t\<close> stands in \<open>R\<close> to the events after it;
  \<open>always_preceded R [] t\<close>: every event of \<open>t\<close> stands in \<open>R\<close> to the events before it.
\<close>

fun always_followed :: "(event \<Rightarrow> event list \<Rightarrow> bool) \<Rightarrow> event list \<Rightarrow> bool" where
  "always_followed R [] = True"
| "always_followed R (e # t) = (R e t \<and> always_followed R t)"

fun always_preceded ::
  "(event list \<Rightarrow> event \<Rightarrow> bool) \<Rightarrow> event list \<Rightarrow> event list \<Rightarrow> bool" where
  "always_preceded R pre [] = True"
| "always_preceded R pre (e # t) = (R pre e \<and> always_preceded R (pre @ [e]) t)"

text \<open>
  The events a pass through the loop of a run with the handle \<open>debug_proxy\<close> can
  perform, each with what is known when it happens.
\<close>

inductive shell_event :: "nat \<Rightarrow> event \<Rightarrow> bool" for debug_proxy :: nat where
  prompt: "shell_event debug_proxy (Printf ''debug> '' [])"
| fflush: "shell_event debug_proxy (Call Fflush [Sym ''stdout''] [])"
| end_of_file:
    "shell_event debug_proxy (Call Fgets [Num (int MAX_COMMAND_LENGTH), Sym ''stdin''] [Null])"
| line:
    "fgets MAX_COMMAND_LENGTH stream = Some (buf, rest) \<Longrightarrow>
     shell_event debug_proxy (Call Fgets [Num (int MAX_COMMAND_LENGTH), Sym ''stdin''] [Str buf])"
| command_new:
    "fgets MAX_COMMAND_LENGTH stream = Some (buf, rest) \<Longrightarrow>
     remove_newline (c_str buf) \<noteq> ''quit'' \<Longrightarrow>
     parse_command (remove_newline (c_str buf)) = (name, args, argc) \<Longrightarrow>
     shell_event debug_proxy
       (Call Debugserver_command_new [str_val name, strs_val args, Num (int argc)] [ptr_val cmd])"
| command_null: "shell_event debug_proxy (Fprintf_stderr ''Failed to create command\<newline>'' [])"
| send_command:
    "shell_event debug_proxy
       (Call Debug_proxy_send_command [Ptr debug_proxy, Ptr c] [Code err, str_val response])"
| command_free: "shell_event debug_proxy (Call Debugserver_command_free [Ptr c] [])"
| send_failed:
    "err \<noteq> IdeviceSuccess \<Longrightarrow>
     shell_event debug_proxy (Fprintf_stderr ''Command failed with error: %d\<newline>'' [Code err])"
| response: "shell_event debug_proxy (Printf ''%s\<newline>'' [Str r])"
| string_free: "shell_event debug_proxy (Call Idevice_string_free [Str r] [])"
| no_response: "shell_event debug_proxy (Printf ''(no response)\<newline>'' [])"
| read_response:
    "shell_event debug_proxy
       (Call Debug_proxy_read_response [Ptr debug_proxy] [Code err, str_val response])"

text \<open>
  The eight setup stages in the order of the source, and the stage calls of a trace.
\<close>

definition setup_stages :: "api list" where
  "setup_stages =
     [Idevice_pairing_file_read, Idevice_tcp_provider_new, Core_device_proxy_connect,
      Core_device_proxy_get_server_rsd_port, Core_device_proxy_create_tcp_adapter,
      Adapter_connect, Rsd_handshake_new, Debug_proxy_connect_rsd]"

definition stage_calls :: "event list \<Rightarrow> api list" where
  "stage_calls t = filter (\<lambda>f. f \<in> set setup_stages) (calls t)"

text \<open>The events of a trace that are stage calls, with their arguments and results.\<close>

definition stage_events :: "event list \<Rightarrow> event list" where
  "stage_events t =
     filter (\<lambda>e. case called e of Some f \<Rightarrow> f \<in> set setup_stages | None \<Rightarrow> False) t"

text \<open>
  The stages as the specification has them, each fed with what the stages before it
  produced, and the codes they return in a world. A run is to perform them in this
  order, up to and including the first that fails.
\<close>

definition stage_codes :: "world \<Rightarrow> IdeviceErrorCode list" where
  "stage_codes w =
     [fst (pairing_file_read_result w), fst (tcp_provider_new_result w),
      fst (core_device_proxy_connect_result w), fst (get_server_rsd_port_result w),
      fst (create_tcp_adapter_result w), fst (adapter_connect_result w),
      fst (rsd_handshake_new_result w), fst (debug_proxy_connect_rsd_result w)]"

definition stages_as_specified :: "world \<Rightarrow> event list" where
  "stages_as_specified w =
     [Call Idevice_pairing_file_read
        [str_val (if length (argv w) > 2 then nth_arg (argv w) 2 else Some ''pairing.plist'')]
        [Code (fst (pairing_file_read_result w)), Ptr (snd (pairing_file_read_result w))],
      Call Idevice_tcp_provider_new
        [Sym ''addr'', Ptr (snd (pairing_file_read_result w)), Str ''DebugProxyShell'']
        [Code (fst (tcp_provider_new_result w)), Ptr (snd (tcp_provider_new_result w))],
      Call Core_device_proxy_connect
        [Ptr (snd (tcp_provider_new_result w))]
        [Code (fst (core_device_proxy_connect_result w)),
         Ptr (snd (core_device_proxy_connect_result w))],
      Call Core_device_proxy_get_server_rsd_port
        [Ptr (snd (core_device_proxy_connect_result w))]
        [Code (fst (get_server_rsd_port_result w)), U16 (snd (get_server_rsd_port_result w))],
      Call Core_device_proxy_create_tcp_adapter
        [Ptr (snd (core_device_proxy_connect_result w))]
        [Code (fst (create_tcp_adapter_result w)), Ptr (snd (create_tcp_adapter_result w))],
      Call Adapter_connect
        [Ptr (snd (create_tcp_adapter_result w)), U16 (snd (get_server_rsd_port_result w))]
        [Code (fst (adapter_connect_result w)), Ptr (snd (adapter_connect_result w))],
      Call Rsd_handshake_new
        [Ptr (snd (adapter_connect_result w))]
        [Code (fst (rsd_handshake_new_result w)), Ptr (snd (rsd_handshake_new_result w))],
      Call Debug_proxy_connect_rsd
        [Ptr (snd (create_tcp_adapter_result w)), Ptr (snd (rsd_handshake_new_result w))]
        [Code (fst (debug_proxy_connect_rsd_result w)),
         Ptr (snd (debug_proxy_connect_rsd_result w))]]"

text \<open>The functions that only give a handle back, and the events of a failure path.\<close>

definition release_functions :: "api list" where
  "release_functions =
     [Idevice_pairing_file_free, Idevice_provider_free, Core_device_proxy_free,
      Adapter_close, Adapter_free, Rsd_handshake_free]"

fun diagnostic_or_release :: "event \<Rightarrow> bool" where
  "diagnostic_or_release (Call f args rets) = (f \<in> set release_functions)"
| "diagnostic_or_release (Printf fmt args) = False"
| "diagnostic_or_release (Fprintf_stderr fmt args) = True"

text \<open>The functions of the library that take a \<open>CoreDeviceProxyHandle\<close>.\<close>

definition core_device_proxy_functions :: "api list" where
  "core_device_proxy_functions =
     [Core_device_proxy_connect, Core_device_proxy_get_server_rsd_port,
      Core_device_proxy_create_tcp_adapter, Core_device_proxy_free]"

text \<open>
  \<open>diagnosed c post\<close>: the events \<open>post\<close> begin with a diagnostic on \<open>stderr\<close> that
  prints the code \<open>c\<close>, or with the release of the command followed by such a diagnostic.
\<close>

fun diagnosed :: "IdeviceErrorCode \<Rightarrow> event list \<Rightarrow> bool" where
  "diagnosed c (Fprintf_stderr fmt args # post) = (args = [Code c])"
| "diagnosed c (Call f a r # Fprintf_stderr fmt args # post) =
     (f = Debugserver_command_free \<and> args = [Code c])"
| "diagnosed c post = False"

fun is_diagnostic :: "event \<Rightarrow> bool" where
  "is_diagnostic (Fprintf_stderr fmt args) = True"
| "is_diagnostic (Call f args rets) = False"
| "is_diagnostic (Printf fmt args) = False"

text \<open>
  An answer of \<open>debug_proxy_read_response\<close> that carries a reply packet, and what the
  driver is to do with it: the call, the print, the release.
\<close>

fun available :: "answer \<Rightarrow> bool" where
  "available (err, response) = (err = IdeviceSuccess \<and> response \<noteq> None)"

fun responded :: "nat \<Rightarrow> answer \<Rightarrow> event list" where
  "responded debug_proxy (err, response) =
     [Call Debug_proxy_read_response [Ptr debug_proxy] [Code err, str_val response],
      Printf ''%s\<newline>'' [str_val response],
      Call Idevice_string_free [str_val response] []]"

text \<open>
  What the specification says of the events that begin at the first
  \<open>debug_proxy_read_response\<close> after a command: a call that returns \<open>IdeviceSuccess\<close> and a response is followed by
  the print and the release of that response and by the next call; a call that returns
  anything else is followed by the next prompt; the events may stop before a call that
  has not come back.
\<close>

fun drain_then_prompt :: "event list \<Rightarrow> bool" where
  "drain_then_prompt [] = True"
| "drain_then_prompt (Call f args [Code c, r] # t) =
     (f = Debug_proxy_read_response \<and>
      (if c = IdeviceSuccess \<and> r \<noteq> Null
       then take 2 t = [Printf ''%s\<newline>'' [r], Call Idevice_string_free [r] []]
            \<and> drain_then_prompt (drop 2 t)
       else take 2 t = [Printf ''debug> '' [], Call Fflush [Sym ''stdout''] []]))"
| "drain_then_prompt (e # t) = False"

text \<open>
  The events that end the loop: \<open>fgets\<close> returns NULL, or the line it read is \<open>quit\<close>
  once its newline is removed.
\<close>

fun loop_ends :: "event \<Rightarrow> bool" where
  "loop_ends (Call f args [Null]) = (f = Fgets)"
| "loop_ends (Call f args [Str buf]) = (f = Fgets \<and> remove_newline (c_str buf) = ''quit'')"
| "loop_ends e = False"

text \<open>
  A world in which every setup call succeeds, the user types three lines, and the
  device answers the first command with two packets.
\<close>

definition example_world :: world where
  "example_world =
     \<lparr>argv = [''debug_proxy'', ''10.0.0.1''],
      init_logger_result = 0,
      inet_pton_result = 1,
      pairing_file_read_result = (IdeviceSuccess, 1),
      tcp_provider_new_result = (IdeviceSuccess, 2),
      core_device_proxy_connect_result = (IdeviceSuccess, 3),
      get_server_rsd_port_result = (IdeviceSuccess, 58783),
      create_tcp_adapter_result = (IdeviceSuccess, 4),
      adapter_connect_result = (IdeviceSuccess, 5),
      rsd_handshake_new_result = (IdeviceSuccess, 6),
      adapter_close_result = IdeviceSuccess,
      debug_proxy_connect_rsd_result = (IdeviceSuccess, 7),
      stdin = ''qSupported\<newline>x y\<newline>quit\<newline>'',
      command_new_results = [Some 8, Some 9],
      send_command_results = [(IdeviceSuccess, Some ''r0''), (IdeviceFailure (- 3), None)],
      read_response_results = [(IdeviceSuccess, Some ''r1''), (IdeviceFailure (- 1), None)]\<rparr>"

text \<open>The same world, except that the RSD handshake fails.\<close>

definition handshake_failure_world :: world where
  "handshake_failure_world =
     example_world\<lparr>rsd_handshake_new_result := (IdeviceFailure 5, 0)\<rparr>"

text \<open>A line with sixteen tokens after the name.\<close>

definition long_line :: string where
  "long_line = ''n a b c d e f g h i j k l m n o p''"

text \<open>
  A world in which every setup call and the one command succeed, and the first
  \<open>debug_proxy_read_response\<close> fails.
\<close>

definition read_failure_world :: world where
  "read_failure_world =
     example_world
       \<lparr>stdin := ''qSupported\<newline>quit\<newline>'',
        command_new_results := [Some 8],
        send_command_results := [(IdeviceSuccess, Some ''r0'')],
        read_response_results := [(IdeviceFailure (- 1), None)]\<rparr>"

section \<open>Properties\<close>

subsection \<open>Reading a line\<close>









subsection \<open>Splitting a line\<close>

lemma split_spaces_nonempty: "split_spaces s \<noteq> []"
  by (induction s) (auto split: list.splits)

lemma hd_split_spaces: "hd (split_spaces s) = takeWhile (\<lambda>c. c \<noteq> CHR '' '') s"
proof (induction s)
  case Nil
  show ?case by simp
next
  case (Cons c s)
  obtain w ws where ws: "split_spaces s = w # ws"
    using split_spaces_nonempty [of s] by (cases "split_spaces s") auto
  with Cons show ?case by simp
qed

lemma tl_split_spaces:
  "tl (split_spaces s) =
     (case dropWhile (\<lambda>c. c \<noteq> CHR '' '') s of [] \<Rightarrow> [] | c # r \<Rightarrow> split_spaces r)"
proof (induction s)
  case Nil
  show ?case by simp
next
  case (Cons c s)
  obtain w ws where ws: "split_spaces s = w # ws"
    using split_spaces_nonempty [of s] by (cases "split_spaces s") auto
  show ?case
  proof (cases "c = CHR '' ''")
    case True
    then show ?thesis by simp
  next
    case False
    with Cons ws show ?thesis by simp
  qed
qed

lemma space_tokens_space: "space_tokens (CHR '' '' # s) = space_tokens s"
  by (simp add: space_tokens_def)

lemma space_tokens_Nil: "space_tokens [] = []"
  by (simp add: space_tokens_def)

lemma space_tokens_dropWhile:
  "space_tokens (dropWhile (\<lambda>c. c = CHR '' '') s) = space_tokens s"
  by (induction s) (auto simp: space_tokens_space)

lemma space_tokens_word:
  assumes "s \<noteq> []" "hd s \<noteq> CHR '' ''"
  shows "space_tokens s =
     takeWhile (\<lambda>c. c \<noteq> CHR '' '') s
     # space_tokens (tl (dropWhile (\<lambda>c. c \<noteq> CHR '' '') s))"
proof -
  have "split_spaces s = hd (split_spaces s) # tl (split_spaces s)"
    using split_spaces_nonempty by simp
  then have "space_tokens s = filter (\<lambda>w. w \<noteq> []) (hd (split_spaces s) # tl (split_spaces s))"
    by (simp add: space_tokens_def)
  moreover have "takeWhile (\<lambda>c. c \<noteq> CHR '' '') s \<noteq> []"
    using assms by (cases s) auto
  moreover have "filter (\<lambda>w. w \<noteq> []) (tl (split_spaces s)) =
      space_tokens (tl (dropWhile (\<lambda>c. c \<noteq> CHR '' '') s))"
  proof (cases "dropWhile (\<lambda>c. c \<noteq> CHR '' '') s")
    case Nil
    show ?thesis unfolding tl_split_spaces space_tokens_def Nil by simp
  next
    case (Cons c r)
    show ?thesis unfolding tl_split_spaces space_tokens_def Cons by simp
  qed
  ultimately show ?thesis
    by (simp add: hd_split_spaces)
qed

lemma strtok_eq:
  "strtok str '' '' saved =
     (let s = dropWhile (\<lambda>c. c = CHR '' '') (case str of Some s0 \<Rightarrow> s0 | None \<Rightarrow> saved)
      in if s = [] then (None, [])
         else (Some (takeWhile (\<lambda>c. c \<noteq> CHR '' '') s),
               tl (dropWhile (\<lambda>c. c \<noteq> CHR '' '') s)))"
proof -
  have m1: "(\<lambda>c. c \<in> set '' '') = (\<lambda>c. c = CHR '' '')" by simp
  have m2: "(\<lambda>c. c \<notin> set '' '') = (\<lambda>c. c \<noteq> CHR '' '')" by simp
  have t: "(if r = [] then [] else tl r) = tl r" for r :: string by simp
  show ?thesis unfolding strtok_def by (simp only: Let_def m1 m2 t)
qed

lemma strtok_cases:
  obtains (none) "space_tokens (case str of Some s0 \<Rightarrow> s0 | None \<Rightarrow> saved) = []"
      and "strtok str '' '' saved = (None, [])"
  | (some) t r where "space_tokens (case str of Some s0 \<Rightarrow> s0 | None \<Rightarrow> saved) = t # space_tokens r"
      and "strtok str '' '' saved = (Some t, r)"
proof -
  define s where "s = (case str of Some s0 \<Rightarrow> s0 | None \<Rightarrow> saved)"
  define s1 where "s1 = dropWhile (\<lambda>c. c = CHR '' '') s"
  have tok: "space_tokens s = space_tokens s1"
    unfolding s1_def by (rule space_tokens_dropWhile [symmetric])
  show thesis
  proof (cases "s1 = []")
    case True
    have "strtok str '' '' saved = (None, [])"
      unfolding strtok_eq using True by (simp add: s1_def s_def Let_def)
    moreover have "space_tokens s = []"
      unfolding tok True by (rule space_tokens_Nil)
    ultimately show thesis using none by (simp add: s_def)
  next
    case False
    have hd: "hd s1 \<noteq> CHR '' ''"
      using False hd_dropWhile [of "\<lambda>c. c = CHR '' ''" s] by (simp add: s1_def)
    have "strtok str '' '' saved =
        (Some (takeWhile (\<lambda>c. c \<noteq> CHR '' '') s1), tl (dropWhile (\<lambda>c. c \<noteq> CHR '' '') s1))"
      unfolding strtok_eq using False by (simp add: s1_def s_def Let_def)
    moreover have "space_tokens s =
        takeWhile (\<lambda>c. c \<noteq> CHR '' '') s1 # space_tokens (tl (dropWhile (\<lambda>c. c \<noteq> CHR '' '') s1))"
      unfolding tok by (rule space_tokens_word [OF False hd])
    ultimately show thesis using some by (simp add: s_def)
  qed
qed

lemma split_arguments_tokens:
  "split_arguments token saved av =
     av @ take (15 - length av) (case token of None \<Rightarrow> [] | Some t \<Rightarrow> t # space_tokens saved)"
proof (induction token saved av rule: split_arguments.induct)
  case (1 token saved av)
  show ?case
  proof (cases token)
    case None
    then show ?thesis by (subst split_arguments.simps) simp
  next
    case (Some t)
    show ?thesis
    proof (cases "length av < 15")
      case False
      with Some show ?thesis by (subst split_arguments.simps) simp
    next
      case True
      then have e: "15 - length av = Suc (14 - length av)" by arith
      have tk: "take (15 - length av) (t # xs) = t # take (14 - length av) xs" for xs
        by (simp only: e take_Suc_Cons)
      show ?thesis
      proof (cases rule: strtok_cases [where str = None and saved = saved])
        case none
        have "split_arguments token saved av = split_arguments None [] (av @ [t])"
          by (subst split_arguments.simps) (simp add: Some True none)
        also have "\<dots> = (av @ [t]) @ take (15 - length (av @ [t])) []"
          using 1 [OF Some True, of None "[]"] none by simp
        finally show ?thesis using none by (simp add: Some tk)
      next
        case (some t' r)
        have "split_arguments token saved av = split_arguments (Some t') r (av @ [t])"
          by (subst split_arguments.simps) (simp add: Some True some)
        also have "\<dots> = (av @ [t]) @ take (15 - length (av @ [t])) (t' # space_tokens r)"
          using 1 [OF Some True, of "Some t'" r] some by simp
        finally show ?thesis using some by (simp add: Some tk)
      qed
    qed
  qed
qed

lemma strtok_rest: "strtok None [] saved = (if saved = [] then (None, []) else (Some saved, []))"
  by (simp add: strtok_def)

lemma parse_command_tokens:
  "parse_command command =
     (case space_tokens command of [] \<Rightarrow> None | t # ts \<Rightarrow> Some t,
      if snd (strtok (Some command) '' '' []) = [] then None
      else Some (take 15 (tl (space_tokens command))),
      length (take 15 (tl (space_tokens command))))"
proof (cases rule: strtok_cases [where str = "Some command" and saved = "[]"])
  case none
  then show ?thesis
    by (simp add: parse_command_def strtok_rest)
next
  case (some t r)
  note outer = some
  show ?thesis
  proof (cases "r = []")
    case True
    with outer show ?thesis
      by (simp add: parse_command_def strtok_rest space_tokens_Nil)
  next
    case False
    show ?thesis
    proof (cases rule: strtok_cases [where str = "Some r" and saved = "[]"])
      case none
      with outer False show ?thesis
        by (simp add: parse_command_def strtok_rest split_arguments_tokens)
    next
      case (some t' r')
      with outer False show ?thesis
        by (simp add: parse_command_def strtok_rest split_arguments_tokens)
    qed
  qed
qed

subsection \<open>The loop, one pass at a time\<close>

lemma shell_body_cases [case_names eof quit no_command_answer null_command no_send_answer send_failed sent]:
  obtains
    (eof) "fgets MAX_COMMAND_LENGTH (input s) = None"
      and "shell_body dp s =
            ([Printf ''debug> '' [], Call Fflush [Sym ''stdout''] [],
              Call Fgets [Num (int MAX_COMMAND_LENGTH), Sym ''stdin''] [Null]], Break, s)"
  | (quit) buf rest where "fgets MAX_COMMAND_LENGTH (input s) = Some (buf, rest)"
      and "remove_newline (c_str buf) = ''quit''"
      and "shell_body dp s =
            ([Printf ''debug> '' [], Call Fflush [Sym ''stdout''] [],
              Call Fgets [Num (int MAX_COMMAND_LENGTH), Sym ''stdin''] [Str buf]],
             Next, s\<lparr>running := False, input := rest\<rparr>)"
  | (no_command_answer) buf rest where "fgets MAX_COMMAND_LENGTH (input s) = Some (buf, rest)"
      and "remove_newline (c_str buf) \<noteq> ''quit''"
      and "command_answers s = []"
      and "shell_body dp s =
            ([Printf ''debug> '' [], Call Fflush [Sym ''stdout''] [],
              Call Fgets [Num (int MAX_COMMAND_LENGTH), Sym ''stdin''] [Str buf]],
             Blocked, s\<lparr>input := rest\<rparr>)"
  | (null_command) buf rest name args argc cmds
      where "fgets MAX_COMMAND_LENGTH (input s) = Some (buf, rest)"
      and "remove_newline (c_str buf) \<noteq> ''quit''"
      and "parse_command (remove_newline (c_str buf)) = (name, args, argc)"
      and "command_answers s = None # cmds"
      and "shell_body dp s =
            ([Printf ''debug> '' [], Call Fflush [Sym ''stdout''] [],
              Call Fgets [Num (int MAX_COMMAND_LENGTH), Sym ''stdin''] [Str buf],
              Call Debugserver_command_new [str_val name, strs_val args, Num (int argc)] [Null],
              Fprintf_stderr ''Failed to create command\<newline>'' []],
             Next, s\<lparr>input := rest, command_answers := cmds\<rparr>)"
  | (no_send_answer) buf rest name args argc c cmds
      where "fgets MAX_COMMAND_LENGTH (input s) = Some (buf, rest)"
      and "remove_newline (c_str buf) \<noteq> ''quit''"
      and "parse_command (remove_newline (c_str buf)) = (name, args, argc)"
      and "command_answers s = Some c # cmds"
      and "send_answers s = []"
      and "shell_body dp s =
            ([Printf ''debug> '' [], Call Fflush [Sym ''stdout''] [],
              Call Fgets [Num (int MAX_COMMAND_LENGTH), Sym ''stdin''] [Str buf],
              Call Debugserver_command_new [str_val name, strs_val args, Num (int argc)] [Ptr c]],
             Blocked, s\<lparr>input := rest, command_answers := cmds\<rparr>)"
  | (send_failed) buf rest name args argc c cmds err response sends
      where "fgets MAX_COMMAND_LENGTH (input s) = Some (buf, rest)"
      and "remove_newline (c_str buf) \<noteq> ''quit''"
      and "parse_command (remove_newline (c_str buf)) = (name, args, argc)"
      and "command_answers s = Some c # cmds"
      and "send_answers s = (err, response) # sends"
      and "err \<noteq> IdeviceSuccess"
      and "shell_body dp s =
            ([Printf ''debug> '' [], Call Fflush [Sym ''stdout''] [],
              Call Fgets [Num (int MAX_COMMAND_LENGTH), Sym ''stdin''] [Str buf],
              Call Debugserver_command_new [str_val name, strs_val args, Num (int argc)] [Ptr c],
              Call Debug_proxy_send_command [Ptr dp, Ptr c] [Code err, str_val response],
              Call Debugserver_command_free [Ptr c] [],
              Fprintf_stderr ''Command failed with error: %d\<newline>'' [Code err]],
             Next, s\<lparr>input := rest, command_answers := cmds, send_answers := sends\<rparr>)"
  | (sent) buf rest name args argc c cmds response sends td reads left
      where "fgets MAX_COMMAND_LENGTH (input s) = Some (buf, rest)"
      and "remove_newline (c_str buf) \<noteq> ''quit''"
      and "parse_command (remove_newline (c_str buf)) = (name, args, argc)"
      and "command_answers s = Some c # cmds"
      and "send_answers s = (IdeviceSuccess, response) # sends"
      and "drain dp (read_answers s) = (td, reads, left)"
      and "shell_body dp s =
            ([Printf ''debug> '' [], Call Fflush [Sym ''stdout''] [],
              Call Fgets [Num (int MAX_COMMAND_LENGTH), Sym ''stdin''] [Str buf],
              Call Debugserver_command_new [str_val name, strs_val args, Num (int argc)] [Ptr c],
              Call Debug_proxy_send_command [Ptr dp, Ptr c] [Code IdeviceSuccess, str_val response],
              Call Debugserver_command_free [Ptr c] []]
             @ (case response of
                  Some r \<Rightarrow> [Printf ''%s\<newline>'' [Str r], Call Idevice_string_free [Str r] []]
                | None \<Rightarrow> [Printf ''(no response)\<newline>'' []])
             @ td,
             if left then Next else Blocked,
             s\<lparr>input := rest, command_answers := cmds, send_answers := sends,
               read_answers := reads\<rparr>)"
proof (cases "fgets MAX_COMMAND_LENGTH (input s)")
  case None
  then show thesis using eof by (simp add: shell_body_def)
next
  case (Some br)
  obtain buf rest where br: "br = (buf, rest)" by (cases br)
  note line = Some [unfolded br]
  show thesis
  proof (cases "remove_newline (c_str buf) = ''quit''")
    case True
    with line show thesis using quit by (simp add: shell_body_def)
  next
    case False
    note not_quit = False
    obtain name args argc where p: "parse_command (remove_newline (c_str buf)) = (name, args, argc)"
      by (cases "parse_command (remove_newline (c_str buf))")
    show thesis
    proof (cases "command_answers s")
      case Nil
      with line not_quit p show thesis using no_command_answer by (simp add: shell_body_def)
    next
      case (Cons cmd cmds)
      note cmds = Cons
      show thesis
      proof (cases cmd)
        case None
        with line not_quit p cmds show thesis
          using null_command [of buf rest name args argc cmds]
          by (simp add: shell_body_def ptr_val_def)
      next
        case (Some c)
        note c = Some
        show thesis
        proof (cases "send_answers s")
          case Nil
          with line not_quit p cmds c show thesis
            using no_send_answer [of buf rest name args argc c cmds]
            by (simp add: shell_body_def ptr_val_def)
        next
          case (Cons a sends)
          obtain err response where a: "a = (err, response)" by (cases a)
          note sends = Cons [unfolded a]
          show thesis
          proof (cases "err = IdeviceSuccess")
            case False
            with line not_quit p cmds c sends show thesis
              using send_failed [of buf rest name args argc c cmds err response sends]
              by (simp add: shell_body_def ptr_val_def)
          next
            case True
            obtain td reads left where d: "drain dp (read_answers s) = (td, reads, left)"
              by (cases "drain dp (read_answers s)")
            with True line not_quit p cmds c sends show thesis
              using sent [of buf rest name args argc c cmds response sends td reads left]
              by (simp add: shell_body_def ptr_val_def)
          qed
        qed
      qed
    qed
  qed
qed

lemma shell_stopped: "\<not> running s \<Longrightarrow> shell dp s = ([], True)"
  by (subst shell.simps) simp

lemma shell_Break: "running s \<Longrightarrow> shell_body dp s = (t, Break, s') \<Longrightarrow> shell dp s = (t, True)"
  by (subst shell.simps) simp

lemma shell_Blocked: "running s \<Longrightarrow> shell_body dp s = (t, Blocked, s') \<Longrightarrow> shell dp s = (t, False)"
  by (subst shell.simps) simp

lemma shell_Next:
  "running s \<Longrightarrow> shell_body dp s = (t, Next, s') \<Longrightarrow>
     shell dp s = (t @ fst (shell dp s'), snd (shell dp s'))"
  by (subst shell.simps) (simp add: prepend_def)

lemma shell_induct [consumes 0, case_names stopped Break Blocked Next]:
  assumes "\<And>dp s. \<not> running s \<Longrightarrow> P dp s"
    and "\<And>dp s t s'. running s \<Longrightarrow> shell_body dp s = (t, Break, s') \<Longrightarrow> P dp s"
    and "\<And>dp s t s'. running s \<Longrightarrow> shell_body dp s = (t, Blocked, s') \<Longrightarrow> P dp s"
    and "\<And>dp s t s'. running s \<Longrightarrow> shell_body dp s = (t, Next, s') \<Longrightarrow> P dp s' \<Longrightarrow> P dp s"
  shows "P dp s"
proof (induction dp s rule: shell.induct)
  case (1 dp s)
  show ?case
  proof (cases "running s")
    case False
    then show ?thesis by (rule assms(1))
  next
    case True
    obtain t c s' where b: "shell_body dp s = (t, c, s')"
      by (cases "shell_body dp s")
    show ?thesis
    proof (cases c)
      case Next
      have "P dp s'"
        by (rule 1 [of t "(c, s')" c s']) (simp_all add: True b Next)
      with b True Next show ?thesis
        using assms(4) [of s dp t s'] by simp
    next
      case Break
      with b True show ?thesis using assms(2) by simp
    next
      case Blocked
      with b True show ?thesis using assms(3) by simp
    qed
  qed
qed

subsection \<open>The events of a run\<close>

lemma drain_event: "e \<in> set (fst (drain dp reads)) \<Longrightarrow> shell_event dp e"
proof (induction reads)
  case Nil
  then show ?case by simp
next
  case (Cons a reads)
  obtain err response where a: "a = (err, response)" by (cases a)
  show ?case
  proof (cases "err \<noteq> IdeviceSuccess \<or> response = None")
    case True
    with Cons.prems a show ?thesis
      by (auto intro: shell_event.read_response)
  next
    case False
    then obtain r where r: "response = Some r" by auto
    obtain t reads' left where d: "drain dp reads = (t, reads', left)"
      by (cases "drain dp reads")
    from Cons.prems a False r d
    have "e = Call Debug_proxy_read_response [Ptr dp] [Code err, str_val response]
        \<or> e = Printf ''%s\<newline>'' [Str r] \<or> e = Call Idevice_string_free [Str r] []
        \<or> e \<in> set t"
      by (auto simp: str_val_def)
    with Cons.IH d show ?thesis
      by (auto intro: shell_event.intros)
  qed
qed

lemma shell_body_event:
  assumes "shell_body dp s = (t, c, s')" and "e \<in> set t"
  shows "shell_event dp e"
proof (cases rule: shell_body_cases [of s dp])
  case eof
  with assms show ?thesis by (auto intro: shell_event.intros)
next
  case (quit buf rest)
  with assms show ?thesis by (auto intro: shell_event.intros)
next
  case (no_command_answer buf rest)
  with assms show ?thesis by (auto intro: shell_event.intros)
next
  case (null_command buf rest name args argc cmds)
  from shell_event.command_new [OF null_command(1,2,3), of dp None]
  have "shell_event dp (Call Debugserver_command_new [str_val name, strs_val args, Num (int argc)] [Null])"
    by (simp add: ptr_val_def)
  with null_command assms show ?thesis by (auto intro: shell_event.intros)
next
  case (no_send_answer buf rest name args argc c cmds)
  from shell_event.command_new [OF no_send_answer(1,2,3), of dp "Some c"]
  have "shell_event dp (Call Debugserver_command_new [str_val name, strs_val args, Num (int argc)] [Ptr c])"
    by (simp add: ptr_val_def)
  with no_send_answer assms show ?thesis by (auto intro: shell_event.intros)
next
  case (send_failed buf rest name args argc c cmds err response sends)
  from shell_event.command_new [OF send_failed(1,2,3), of dp "Some c"]
  have "shell_event dp (Call Debugserver_command_new [str_val name, strs_val args, Num (int argc)] [Ptr c])"
    by (simp add: ptr_val_def)
  with send_failed assms show ?thesis by (auto intro: shell_event.intros)
next
  case (sent buf rest name args argc c cmds response sends td reads left)
  from shell_event.command_new [OF sent(1,2,3), of dp "Some c"]
  have cn: "shell_event dp (Call Debugserver_command_new [str_val name, strs_val args, Num (int argc)] [Ptr c])"
    by (simp add: ptr_val_def)
  have td: "x \<in> set td \<Longrightarrow> shell_event dp x" for x
    using drain_event [of x dp "read_answers s"] sent(6) by simp
  from sent assms cn td show ?thesis
    by (cases response) (auto intro: shell_event.intros)
qed

lemma shell_trace_event: "e \<in> set (fst (shell dp s)) \<Longrightarrow> shell_event dp e"
proof (induction dp s rule: shell_induct)
  case (stopped dp s)
  then show ?case by (simp add: shell_stopped)
next
  case (Break dp s t s')
  then show ?case using shell_body_event [of dp s t Break s' e] by (simp add: shell_Break)
next
  case (Blocked dp s t s')
  then show ?case using shell_body_event [of dp s t Blocked s' e] by (simp add: shell_Blocked)
next
  case (Next dp s t s')
  then show ?case using shell_body_event [of dp s t Next s' e] by (auto simp: shell_Next)
qed

lemma calls_append: "calls (a @ b) = calls a @ calls b"
  by (induction a rule: calls.induct) simp_all

lemma called_calls: "e \<in> set t \<Longrightarrow> called e = Some f \<Longrightarrow> f \<in> set (calls t)"
  by (induction t rule: calls.induct) auto

lemma calls_called: "f \<in> set (calls t) \<Longrightarrow> \<exists>e\<in>set t. called e = Some f"
  by (induction t rule: calls.induct) auto

lemma main_setup_code: "main_setup w = (t, Inl c) \<Longrightarrow> c = 1"
  by (auto simp: main_setup_def Let_def split: if_splits prod.splits)

lemma main_cases [case_names returned shell]:
  obtains
    (returned) t where "main_setup w = (t, Inl 1)" and "main w = (t, Returned 1)"
  | (shell) t adapter handshake debug_proxy ts left
      where "main_setup w = (t, Inr (adapter, handshake, debug_proxy))"
      and "shell debug_proxy (initial_shell_state w) = (ts, left)"
      and "main w =
            (t @ [Printf ''\<newline>=== Starting Interactive Debug Shell ===\<newline>'' [],
                  Printf ''Type GDB debugserver commands or 'quit' to exit\<newline>\<newline>'' []]
               @ ts @ (if left then cleanup debug_proxy handshake adapter else []),
             if left then Returned 0 else Pending)"
proof -
  obtain t r where m: "main_setup w = (t, r)" by (cases "main_setup w")
  show thesis
  proof (cases r)
    case (Inl c)
    with m main_setup_code [of w t c] have "main_setup w = (t, Inl 1)" by simp
    then show thesis using returned by (simp add: main_def)
  next
    case (Inr h)
    obtain adapter handshake debug_proxy where h: "h = (adapter, handshake, debug_proxy)"
      by (cases h)
    obtain ts left where sh: "shell debug_proxy (initial_shell_state w) = (ts, left)"
      by (cases "shell debug_proxy (initial_shell_state w)")
    from m Inr h sh show thesis
      using shell [of t adapter handshake debug_proxy ts left]
      by (simp add: main_def Let_def)
  qed
qed

lemma main_setup_calls:
  "set (calls (fst (main_setup w))) \<subseteq>
     {Idevice_init_logger, Inet_pton, Idevice_pairing_file_read, Idevice_pairing_file_free,
      Idevice_tcp_provider_new, Idevice_provider_free, Core_device_proxy_connect,
      Core_device_proxy_get_server_rsd_port, Core_device_proxy_create_tcp_adapter,
      Core_device_proxy_free, Adapter_connect, Adapter_close, Adapter_free,
      Rsd_handshake_new, Rsd_handshake_free, Debug_proxy_connect_rsd}"
  by (simp add: main_setup_def Let_def print_usage_def split: prod.splits)

lemma main_shell_call:
  assumes "e \<in> set (fst (main w))" and "called e = Some f"
    and "f \<in> {Fgets, Fflush, Debugserver_command_new, Debugserver_command_free,
               Debug_proxy_send_command, Debug_proxy_read_response, Idevice_string_free}"
  obtains dp where "shell_event dp e"
proof (cases rule: main_cases [of w])
  case (returned t)
  with assms called_calls [of e t f] main_setup_calls [of w] show ?thesis
    by auto
next
  case (shell t adapter handshake debug_proxy ts left)
  from called_calls [of e t f] main_setup_calls [of w] shell(1) assms(2,3)
  have "e \<notin> set t" by auto
  with assms shell have "e \<in> set ts"
    by (auto simp: cleanup_def split: if_splits)
  with shell(2) shell_trace_event [of e debug_proxy "initial_shell_state w"] that
  show ?thesis by simp
qed



subsection \<open>What follows and what precedes an event\<close>

lemma always_followed_decomp:
  "always_followed R t \<Longrightarrow> t = pre @ e # post \<Longrightarrow> R e post"
  by (induction pre arbitrary: t) auto

lemma always_followed_append:
  "always_followed R (a @ b) =
     (always_followed (\<lambda>e post. R e (post @ b)) a \<and> always_followed R b)"
  by (induction a) auto

lemma always_followed_all:
  "(\<And>e post. e \<in> set t \<Longrightarrow> R e post) \<Longrightarrow> always_followed R t"
  by (induction t) auto

lemma always_preceded_decomp:
  "always_preceded R p t \<Longrightarrow> t = pre @ e # post \<Longrightarrow> R (p @ pre) e"
proof (induction pre arbitrary: t p)
  case Nil
  then show ?case by simp
next
  case (Cons a pre)
  from Cons.prems have "always_preceded R (p @ [a]) (pre @ e # post)" by simp
  from Cons.IH [OF this] show ?case by simp
qed

lemma always_preceded_append:
  "always_preceded R p (a @ b) = (always_preceded R p a \<and> always_preceded R (p @ a) b)"
  by (induction a arbitrary: p) auto

lemma always_preceded_all:
  "(\<And>e pre. e \<in> set t \<Longrightarrow> R pre e) \<Longrightarrow> always_preceded R p t"
  by (induction t arbitrary: p) auto

lemma shell_body_starts:
  assumes "shell_body dp s = (t, c, s')"
  obtains g rest where "t = Printf ''debug> '' [] # Call Fflush [Sym ''stdout''] [] # g # rest"
    and "called g = Some Fgets"
  using assms by (cases rule: shell_body_cases [of s dp]) auto

lemma shell_starts:
  assumes "running s"
  obtains g rest
    where "fst (shell dp s) = Printf ''debug> '' [] # Call Fflush [Sym ''stdout''] [] # g # rest"
    and "called g = Some Fgets"
proof -
  obtain t c s' where b: "shell_body dp s = (t, c, s')" by (cases "shell_body dp s")
  from shell_body_starts [OF b] obtain g rest
    where t: "t = Printf ''debug> '' [] # Call Fflush [Sym ''stdout''] [] # g # rest"
      and g: "called g = Some Fgets" by blast
  show thesis
  proof (cases c)
    case Next
    with assms b t g that [of g "rest @ fst (shell dp s')"] show thesis
      by (simp add: shell_Next)
  next
    case Break
    with assms b t g that [of g rest] show thesis
      by (simp add: shell_Break)
  next
    case Blocked
    with assms b t g that [of g rest] show thesis
      by (simp add: shell_Blocked)
  qed
qed

text \<open>
  What can come after a pass through the body: nothing when the pass is inside a call
  that has not come back; what follows the loop (\<open>z\<close>) when the loop is left; the next
  prompt otherwise.
\<close>

lemma shell_always_followed:
  assumes body: "\<And>s t c s' k. running s \<Longrightarrow> shell_body dp s = (t, c, s') \<Longrightarrow>
      (c = Blocked \<longrightarrow> k = []) \<Longrightarrow>
      (c = Break \<or> (c = Next \<and> \<not> running s') \<longrightarrow> k = z) \<Longrightarrow>
      (c = Next \<and> running s' \<longrightarrow>
         (\<exists>g rest. k = Printf ''debug> '' [] # Call Fflush [Sym ''stdout''] [] # g # rest
            \<and> called g = Some Fgets)) \<Longrightarrow>
      always_followed (\<lambda>e post. R e (post @ k)) t"
  shows "always_followed (\<lambda>e post. R e (post @ (if snd (shell dp s) then z else [])))
           (fst (shell dp s))"
  using body
proof (induction dp s rule: shell_induct)
  case (stopped dp s)
  then show ?case by (simp add: shell_stopped)
next
  case (Break dp s t s')
  from Break(3) [OF Break(1,2), of z] Break(1,2) show ?case
    by (simp add: shell_Break)
next
  case (Blocked dp s t s')
  from Blocked(3) [OF Blocked(1,2), of "[]"] Blocked(1,2) show ?case
    by (simp add: shell_Blocked)
next
  case (Next dp s t s')
  let ?k = "fst (shell dp s') @ (if snd (shell dp s') then z else [])"
  have ih: "always_followed (\<lambda>e post. R e (post @ (if snd (shell dp s') then z else [])))
      (fst (shell dp s'))"
    by (rule Next(3)) (rule Next(4))
  have k: "always_followed (\<lambda>e post. R e (post @ ?k)) t"
  proof (rule Next(4) [OF Next(1,2)])
    show "Next = Blocked \<longrightarrow> ?k = []" by simp
    show "Next = Break \<or> Next = Next \<and> \<not> running s' \<longrightarrow> ?k = z"
      by (simp add: shell_stopped)
    show "Next = Next \<and> running s' \<longrightarrow>
        (\<exists>g rest. ?k = Printf ''debug> '' [] # Call Fflush [Sym ''stdout''] [] # g # rest
           \<and> called g = Some Fgets)"
    proof (intro impI, elim conjE)
      assume "running s'"
      from shell_starts [OF this, of dp] obtain g rest
        where "fst (shell dp s') = Printf ''debug> '' [] # Call Fflush [Sym ''stdout''] [] # g # rest"
          and "called g = Some Fgets" by blast
      then show "\<exists>g rest. ?k = Printf ''debug> '' [] # Call Fflush [Sym ''stdout''] [] # g # rest
           \<and> called g = Some Fgets"
        by simp
    qed
  qed
  from ih k Next(1,2) show ?case
    by (simp add: shell_Next always_followed_append)
qed

lemma drain_calls:
  "set (calls (fst (drain dp reads))) \<subseteq> {Debug_proxy_read_response, Idevice_string_free}"
proof (induction reads)
  case Nil
  show ?case by simp
next
  case (Cons a reads)
  obtain err response where a: "a = (err, response)" by (cases a)
  obtain t reads' left where d: "drain dp reads = (t, reads', left)"
    by (cases "drain dp reads")
  from Cons d show ?case by (auto simp: a)
qed

lemma main_always_followed:
  assumes returned: "\<And>t. main_setup w = (t, Inl 1) \<Longrightarrow> always_followed R t"
    and entered: "\<And>t h k. main_setup w = (t, Inr h) \<Longrightarrow>
                    always_followed (\<lambda>e post. R e (post @ k)) t"
    and banner: "\<And>fmt post. R (Printf fmt []) post"
    and loop: "\<And>t dp hs ad. main_setup w = (t, Inr (ad, hs, dp)) \<Longrightarrow>
                 always_followed
                 (\<lambda>e post. R e (post @ (if snd (shell dp (initial_shell_state w))
                                          then cleanup dp hs ad else [])))
                 (fst (shell dp (initial_shell_state w)))"
    and cleanup: "\<And>dp hs ad. always_followed R (cleanup dp hs ad)"
  shows "always_followed R (fst (main w))"
proof (cases rule: main_cases [of w])
  case (returned t)
  with assms(1) show ?thesis by simp
next
  case (shell t adapter handshake debug_proxy ts left)
  from loop [OF shell(1)] shell(2)
  have l: "always_followed (\<lambda>e post. R e (post @ (if left then cleanup debug_proxy handshake adapter else []))) ts"
    by simp
  have c: "always_followed R (if left then cleanup debug_proxy handshake adapter else [])"
    using cleanup [of debug_proxy handshake adapter] by simp
  from entered [OF shell(1)] banner l c shell(3) show ?thesis
    by (simp add: always_followed_append)
qed

subsection \<open>The command that is constructed\<close>

lemma parse_command_tokens_nonempty:
  assumes "space_tokens command \<noteq> []"
  shows "fst (parse_command command) = Some (hd (space_tokens command))"
    and "(case fst (snd (parse_command command)) of None \<Rightarrow> [] | Some l \<Rightarrow> l)
           = take 15 (tl (space_tokens command))"
    and "snd (snd (parse_command command)) = length (take 15 (tl (space_tokens command)))"
    and "tl (space_tokens command) \<noteq> [] \<Longrightarrow>
           fst (snd (parse_command command)) = Some (take 15 (tl (space_tokens command)))"
proof -
  from assms obtain t r where tok: "space_tokens command = t # space_tokens r"
    and st: "strtok (Some command) '' '' [] = (Some t, r)"
    by (cases rule: strtok_cases [where str = "Some command" and saved = "[]"]) auto
  have r: "r = [] \<Longrightarrow> tl (space_tokens command) = []"
    using tok by (simp add: space_tokens_Nil)
  show "fst (parse_command command) = Some (hd (space_tokens command))"
    using tok by (simp add: parse_command_tokens)
  show "(case fst (snd (parse_command command)) of None \<Rightarrow> [] | Some l \<Rightarrow> l)
           = take 15 (tl (space_tokens command))"
    using tok st r by (simp add: parse_command_tokens)
  show "snd (snd (parse_command command)) = length (take 15 (tl (space_tokens command)))"
    by (simp add: parse_command_tokens)
  show "fst (snd (parse_command command)) = Some (take 15 (tl (space_tokens command)))"
    if "tl (space_tokens command) \<noteq> []"
    using tok st r that by (auto simp: parse_command_tokens)
qed

lemma parse_command_count:
  "snd (snd (parse_command command)) \<le> 15"
  "fst (snd (parse_command command)) = None \<Longrightarrow> snd (snd (parse_command command)) = 0"
  "fst (snd (parse_command command)) = Some l \<Longrightarrow> snd (snd (parse_command command)) = length l"
proof -
  show "snd (snd (parse_command command)) \<le> 15"
    by (simp add: parse_command_tokens)
  show "snd (snd (parse_command command)) = length l" if "fst (snd (parse_command command)) = Some l"
    using that by (auto simp: parse_command_tokens split: if_splits)
  show "snd (snd (parse_command command)) = 0" if "fst (snd (parse_command command)) = None"
  proof (cases rule: strtok_cases [where str = "Some command" and saved = "[]"])
    case none
    then show ?thesis by (simp add: parse_command_tokens)
  next
    case (some t r)
    with that have "r = []" by (simp add: parse_command_tokens split: if_splits)
    with some show ?thesis by (simp add: parse_command_tokens space_tokens_Nil)
  qed
qed

lemma main_command_new:
  assumes "e \<in> set (fst (main w))" and "called e = Some Debugserver_command_new"
  obtains stream buf rest name args argc cmd
  where "fgets MAX_COMMAND_LENGTH stream = Some (buf, rest)"
    and "remove_newline (c_str buf) \<noteq> ''quit''"
    and "parse_command (remove_newline (c_str buf)) = (name, args, argc)"
    and "e = Call Debugserver_command_new [str_val name, strs_val args, Num (int argc)] [ptr_val cmd]"
proof -
  obtain dp where "shell_event dp e"
    using main_shell_call [OF assms, simplified] by auto
  then show thesis using assms(2) that
    by (cases rule: shell_event.cases) auto
qed

text \<open>
  Claim C4, as amended. For a line with at least one token, the name passed to
  \<open>debugserver_command_new\<close> is the first space-delimited token, the arguments are the
  first 15 of the tokens after it, in their order (NULL stands for none), the count is
  their number, and it is 0 when nothing follows the name. Every call of
  \<open>debugserver_command_new\<close> in a run of \<open>main\<close> gets its three arguments this way from a
  line that \<open>fgets\<close> read and that is not \<open>quit\<close>.
\<close>

theorem command_name_and_arguments:
  "(space_tokens command \<noteq> [] \<longrightarrow>
      fst (parse_command command) = Some (hd (space_tokens command))
      \<and> (case fst (snd (parse_command command)) of None \<Rightarrow> [] | Some l \<Rightarrow> l)
          = take 15 (tl (space_tokens command))
      \<and> snd (snd (parse_command command)) = length (take 15 (tl (space_tokens command)))
      \<and> (tl (space_tokens command) = [] \<longrightarrow> snd (snd (parse_command command)) = 0))
   \<and> (\<forall>e\<in>set (fst (main w)). called e = Some Debugserver_command_new \<longrightarrow>
        (\<exists>stream buf rest name args argc r.
           fgets MAX_COMMAND_LENGTH stream = Some (buf, rest)
           \<and> remove_newline (c_str buf) \<noteq> ''quit''
           \<and> parse_command (remove_newline (c_str buf)) = (name, args, argc)
           \<and> e = Call Debugserver_command_new [str_val name, strs_val args, Num (int argc)] [r]))"
proof (intro conjI impI ballI)
  assume t: "space_tokens command \<noteq> []"
  show "fst (parse_command command) = Some (hd (space_tokens command))"
    by (rule parse_command_tokens_nonempty(1) [OF t])
  show "(case fst (snd (parse_command command)) of None \<Rightarrow> [] | Some l \<Rightarrow> l)
          = take 15 (tl (space_tokens command))"
    by (rule parse_command_tokens_nonempty(2) [OF t])
  show "snd (snd (parse_command command)) = length (take 15 (tl (space_tokens command)))"
    by (rule parse_command_tokens_nonempty(3) [OF t])
  show "snd (snd (parse_command command)) = 0" if "tl (space_tokens command) = []"
    using that parse_command_tokens_nonempty(3) [OF t] by simp
next
  fix e
  assume "e \<in> set (fst (main w))" and "called e = Some Debugserver_command_new"
  from main_command_new [OF this] show "\<exists>stream buf rest name args argc r.
           fgets MAX_COMMAND_LENGTH stream = Some (buf, rest)
           \<and> remove_newline (c_str buf) \<noteq> ''quit''
           \<and> parse_command (remove_newline (c_str buf)) = (name, args, argc)
           \<and> e = Call Debugserver_command_new [str_val name, strs_val args, Num (int argc)] [r]"
    by metis
qed

theorem command_name_and_arguments_witness:
  "space_tokens ''x  y z'' \<noteq> []
   \<and> parse_command ''x  y z'' = (Some ''x'', Some [''y'', ''z''], 2)
   \<and> space_tokens ''x  y z'' = [''x'', ''y'', ''z'']
   \<and> Call Debugserver_command_new [Str ''x'', Strs [''y''], Num 1] [Ptr 9]
        \<in> set (fst (main example_world))"
proof -
  have tok: "space_tokens ''x  y z'' = [''x'', ''y'', ''z'']"
    by (simp add: space_tokens_def)
  have e: "Call Debugserver_command_new [Str ''x'', Strs [''y''], Num 1] [Ptr 9]
        \<in> set (fst (main example_world))"
    by code_simp
  have p: "parse_command ''x  y z'' = (Some ''x'', Some [''y'', ''z''], 2)"
    by code_simp
  from command_name_and_arguments [of "''x  y z''" example_world] tok e p
  show ?thesis by simp
qed

theorem all_later_tokens_counterexample:
  "space_tokens ''n a b c d e f g h i j k l m n o p'' \<noteq> []
   \<and> tl (space_tokens ''n a b c d e f g h i j k l m n o p'')
     = [''a'', ''b'', ''c'', ''d'', ''e'', ''f'', ''g'', ''h'', ''i'', ''j'', ''k'', ''l'',
        ''m'', ''n'', ''o'', ''p'']
   \<and> parse_command ''n a b c d e f g h i j k l m n o p''
     = (Some ''n'',
        Some [''a'', ''b'', ''c'', ''d'', ''e'', ''f'', ''g'', ''h'', ''i'', ''j'', ''k'', ''l'',
              ''m'', ''n'', ''o''],
        15)
   \<and> fst (snd (parse_command ''n a b c d e f g h i j k l m n o p''))
     \<noteq> Some (tl (space_tokens ''n a b c d e f g h i j k l m n o p''))"
  by code_simp

lemma main_setup_called:
  assumes "main_setup w = (t, r)" and "e \<in> set t" and "called e = Some f"
  shows "f \<in> {Idevice_init_logger, Inet_pton, Idevice_pairing_file_read, Idevice_pairing_file_free,
      Idevice_tcp_provider_new, Idevice_provider_free, Core_device_proxy_connect,
      Core_device_proxy_get_server_rsd_port, Core_device_proxy_create_tcp_adapter,
      Core_device_proxy_free, Adapter_connect, Adapter_close, Adapter_free,
      Rsd_handshake_new, Rsd_handshake_free, Debug_proxy_connect_rsd}"
  using called_calls [OF assms(2,3)] main_setup_calls [of w] assms(1) by auto

lemma drain_called:
  assumes "drain dp reads = (td, reads', left)" and "e \<in> set td" and "called e = Some f"
  shows "f = Debug_proxy_read_response \<or> f = Idevice_string_free"
  using called_calls [OF assms(2,3)] drain_calls [of dp reads] assms(1) by auto

lemma main_setup_no_fgets: "main_setup w = (t, r) \<Longrightarrow> Call Fgets a rets \<in> set t \<Longrightarrow> False"
  using main_setup_called [of w t r "Call Fgets a rets" Fgets] by simp

lemma drain_no_fgets:
  "drain dp reads = (td, reads', left) \<Longrightarrow> Call Fgets a rets \<in> set td \<Longrightarrow> False"
  using drain_called [of dp reads td reads' left "Call Fgets a rets" Fgets] by simp

lemma command_new_follows_fgets:
  "always_followed
     (\<lambda>e post. \<forall>a buf. e = Call Fgets a [Str buf] \<longrightarrow> remove_newline (c_str buf) \<noteq> ''quit'' \<longrightarrow>
        post \<noteq> [] \<longrightarrow>
        (case parse_command (remove_newline (c_str buf)) of
           (name, args, argc) \<Rightarrow>
             \<exists>r. hd post = Call Debugserver_command_new
                              [str_val name, strs_val args, Num (int argc)] [r]))
     (fst (main w))"
  (is "always_followed ?R _")
proof (rule main_always_followed)
  fix t
  assume "main_setup w = (t, Inl 1)"
  from main_setup_no_fgets [OF this] show "always_followed ?R t"
    by (intro always_followed_all) auto
next
  fix t h and k :: "event list"
  assume "main_setup w = (t, Inr h)"
  from main_setup_no_fgets [OF this] show "always_followed (\<lambda>e post. ?R e (post @ k)) t"
    by (intro always_followed_all) auto
next
  fix fmt post
  show "?R (Printf fmt []) post" by simp
next
  fix dp hs ad
  show "always_followed ?R (cleanup dp hs ad)"
    by (simp add: cleanup_def)
next
  fix t dp hs ad
  show "always_followed
          (\<lambda>e post. ?R e (post @ (if snd (shell dp (initial_shell_state w))
                                    then cleanup dp hs ad else [])))
          (fst (shell dp (initial_shell_state w)))"
  proof (rule shell_always_followed)
    fix s t c s' and k :: "event list"
    assume run: "running s" and body: "shell_body dp s = (t, c, s')"
      and blocked: "c = Blocked \<longrightarrow> k = []"
    from body have t: "t = fst (shell_body dp s)" and c: "c = fst (snd (shell_body dp s))"
      by simp_all
    show "always_followed (\<lambda>e post. ?R e (post @ k)) t"
    proof (cases rule: shell_body_cases [of s dp])
      case eof
      show ?thesis unfolding t eof(2) by simp
    next
      case (quit buf rest)
      show ?thesis unfolding t quit(3) using quit(2) by simp
    next
      case (no_command_answer buf rest)
      from blocked have "k = []" unfolding c no_command_answer(4) by simp
      then show ?thesis unfolding t no_command_answer(4) by simp
    next
      case (null_command buf rest name args argc cmds)
      show ?thesis unfolding t null_command(5) using null_command(3) by simp
    next
      case (no_send_answer buf rest name args argc c cmds)
      show ?thesis unfolding t no_send_answer(6) using no_send_answer(3) by simp
    next
      case (send_failed buf rest name args argc c cmds err response sends)
      show ?thesis unfolding t send_failed(7) using send_failed(3) by simp
    next
      case (sent buf rest name args argc c cmds response sends td reads left)
      have td: "always_followed (\<lambda>e post. ?R e (post @ k)) td"
        using drain_no_fgets [OF sent(6)] by (intro always_followed_all) auto
      show ?thesis unfolding t sent(7) using sent(3) td
        by (cases response) (simp_all add: always_followed_append)
    qed
  qed
qed

text \<open>
  Claim C8. Every call of \<open>debugserver_command_new\<close> in a run of \<open>main\<close> has a count of at
  most 15, which is the length of the argument vector passed (0 with NULL). For a line
  with more than 15 tokens after the name, the arguments are the first 15 of them and the
  count is 15. Nothing tells the user: the event after a line that is read and is not
  \<open>quit\<close>, when there is one, is the call of \<open>debugserver_command_new\<close> itself.
\<close>

theorem at_most_15_arguments:
  "(\<forall>name args argc rets.
      Call Debugserver_command_new [name, args, Num argc] rets \<in> set (fst (main w)) \<longrightarrow>
        argc \<le> 15 \<and> (args = Null \<and> argc = 0 \<or> (\<exists>l. args = Strs l \<and> int (length l) = argc)))
   \<and> (15 < length (tl (space_tokens command)) \<longrightarrow>
        parse_command command =
          (Some (hd (space_tokens command)), Some (take 15 (tl (space_tokens command))), 15))
   \<and> (\<forall>pre a buf post.
        fst (main w) = pre @ Call Fgets a [Str buf] # post
        \<and> remove_newline (c_str buf) \<noteq> ''quit'' \<and> post \<noteq> [] \<longrightarrow>
        (case parse_command (remove_newline (c_str buf)) of
           (name, args, argc) \<Rightarrow>
             \<exists>r. hd post = Call Debugserver_command_new
                              [str_val name, strs_val args, Num (int argc)] [r]))"
proof -
  have count: "argc \<le> 15 \<and> (args = Null \<and> argc = 0 \<or> (\<exists>l. args = Strs l \<and> int (length l) = argc))"
    if e: "Call Debugserver_command_new [name, args, Num argc] rets \<in> set (fst (main w))"
    for name args argc rets
  proof -
    have "called (Call Debugserver_command_new [name, args, Num argc] rets)
        = Some Debugserver_command_new" by simp
    from main_command_new [OF e this] obtain buf name' args' argc' cmd
      where p: "parse_command (remove_newline (c_str buf)) = (name', args', argc')"
        and "Call Debugserver_command_new [name, args, Num argc] rets =
             Call Debugserver_command_new [str_val name', strs_val args', Num (int argc')] [ptr_val cmd]"
      by metis
    then have a: "args = strs_val args'" and c: "argc = int argc'"
      by simp_all
    from parse_command_count [of "remove_newline (c_str buf)"] p
    have "argc' \<le> 15" and "args' = None \<Longrightarrow> argc' = 0" and "\<And>l. args' = Some l \<Longrightarrow> argc' = length l"
      by simp_all
    with a c show ?thesis
      by (cases args') (simp_all add: strs_val_def)
  qed
  have first15: "parse_command command =
          (Some (hd (space_tokens command)), Some (take 15 (tl (space_tokens command))), 15)"
    if l: "15 < length (tl (space_tokens command))"
  proof -
    from l have t': "tl (space_tokens command) \<noteq> []"
      by (cases "tl (space_tokens command)") simp_all
    then have t: "space_tokens command \<noteq> []"
      by (cases "space_tokens command") simp_all
    from parse_command_tokens_nonempty(1,3) [OF t] parse_command_tokens_nonempty(4) [OF t t'] l
    show ?thesis
      by (cases "parse_command command") simp
  qed
  have silent: "case parse_command (remove_newline (c_str buf)) of
           (name, args, argc) \<Rightarrow>
             \<exists>r. hd post = Call Debugserver_command_new
                              [str_val name, strs_val args, Num (int argc)] [r]"
    if "fst (main w) = pre @ Call Fgets a [Str buf] # post
        \<and> remove_newline (c_str buf) \<noteq> ''quit'' \<and> post \<noteq> []"
    for pre a buf post
    using that
      always_followed_decomp [OF command_new_follows_fgets, of w pre "Call Fgets a [Str buf]" post]
    by simp
  from count first15 silent show ?thesis by blast
qed

theorem at_most_15_arguments_witness:
  "Call Debugserver_command_new [Str ''x'', Strs [''y''], Num 1] [Ptr 9]
     \<in> set (fst (main example_world))
   \<and> 15 < length (tl (space_tokens long_line))
   \<and> parse_command long_line
       = (Some ''n'',
          Some [''a'', ''b'', ''c'', ''d'', ''e'', ''f'', ''g'', ''h'', ''i'', ''j'', ''k'', ''l'',
                ''m'', ''n'', ''o''],
          15)
   \<and> fst (main example_world)
       = take 33 (fst (main example_world))
         @ Call Fgets [Num 1024, Sym ''stdin''] [Str ''x y\<newline>'']
         # drop 34 (fst (main example_world))
   \<and> hd (drop 34 (fst (main example_world)))
       = Call Debugserver_command_new [Str ''x'', Strs [''y''], Num 1] [Ptr 9]"
proof -
  have e: "Call Debugserver_command_new [Str ''x'', Strs [''y''], Num 1] [Ptr 9]
     \<in> set (fst (main example_world))"
    by code_simp
  have l: "15 < length (tl (space_tokens long_line))"
    by code_simp
  have t: "take 15 (tl (space_tokens long_line))
       = [''a'', ''b'', ''c'', ''d'', ''e'', ''f'', ''g'', ''h'', ''i'', ''j'', ''k'', ''l'',
          ''m'', ''n'', ''o'']"
    and h: "hd (space_tokens long_line) = ''n''"
    by code_simp+
  have d: "fst (main example_world)
       = take 33 (fst (main example_world))
         @ Call Fgets [Num 1024, Sym ''stdin''] [Str ''x y\<newline>'']
         # drop 34 (fst (main example_world))"
    by code_simp
  have q: "remove_newline (c_str ''x y\<newline>'') \<noteq> ''quit''"
    and n: "drop 34 (fst (main example_world)) \<noteq> []"
    and p: "hd (drop 34 (fst (main example_world)))
       = Call Debugserver_command_new [Str ''x'', Strs [''y''], Num 1] [Ptr 9]"
    by code_simp+
  from at_most_15_arguments [of example_world long_line] e l t h d q n p
  show ?thesis
    by simp
qed

subsection \<open>The setup stages\<close>

lemma shell_calls:
  "set (calls (fst (shell dp s))) \<subseteq>
     {Fgets, Fflush, Debugserver_command_new, Debugserver_command_free,
      Debug_proxy_send_command, Debug_proxy_read_response, Idevice_string_free}"
proof
  fix f
  assume "f \<in> set (calls (fst (shell dp s)))"
  then obtain e where e: "e \<in> set (fst (shell dp s))" and f: "called e = Some f"
    using calls_called by blast
  from shell_trace_event [OF e] f
  show "f \<in> {Fgets, Fflush, Debugserver_command_new, Debugserver_command_free,
      Debug_proxy_send_command, Debug_proxy_read_response, Idevice_string_free}"
    by (cases rule: shell_event.cases) auto
qed

text \<open>A run is the setup followed by events of the loop and of the cleanup.\<close>

lemma main_trace:
  obtains t r rest
  where "main_setup w = (t, r)" and "fst (main w) = t @ rest"
    and "set (calls rest) \<subseteq>
           {Fgets, Fflush, Debugserver_command_new, Debugserver_command_free,
            Debug_proxy_send_command, Debug_proxy_read_response, Idevice_string_free,
            Debug_proxy_free, Rsd_handshake_free, Adapter_free}"
    and "r = Inl 1 \<and> rest = [] \<and> snd (main w) = Returned 1
         \<or> (\<exists>h. r = Inr h) \<and> snd (main w) \<noteq> Returned 1"
proof (cases rule: main_cases [of w])
  case (returned t)
  with that [of t "Inl 1" "[]"] show ?thesis by simp
next
  case (shell t adapter handshake debug_proxy ts left)
  let ?rest = "[Printf ''\<newline>=== Starting Interactive Debug Shell ===\<newline>'' [],
                Printf ''Type GDB debugserver commands or 'quit' to exit\<newline>\<newline>'' []]
               @ ts @ (if left then cleanup debug_proxy handshake adapter else [])"
  from shell_calls [of debug_proxy "initial_shell_state w"] shell(2)
  have "set (calls ?rest) \<subseteq>
           {Fgets, Fflush, Debugserver_command_new, Debugserver_command_free,
            Debug_proxy_send_command, Debug_proxy_read_response, Idevice_string_free,
            Debug_proxy_free, Rsd_handshake_free, Adapter_free}"
    by (auto simp: calls_append cleanup_def)
  with shell that [of t "Inr (adapter, handshake, debug_proxy)" ?rest] show ?thesis
    by simp
qed

lemma main_setup_stage_calls:
  "case main_setup w of
     (t, Inl c) \<Rightarrow> prefix (stage_calls t) setup_stages
   | (t, Inr h) \<Rightarrow> stage_calls t = setup_stages"
  by (simp add: main_setup_def Let_def split_def stage_calls_def setup_stages_def print_usage_def)

lemma main_setup_failed_stage:
  "case main_setup w of
     (t, Inl c) \<Rightarrow>
       always_followed
         (\<lambda>e post. \<forall>f. called e = Some f \<and> f \<in> set setup_stages \<and> failed e \<longrightarrow>
            (\<forall>x\<in>set post. diagnostic_or_release x)) t
   | (t, Inr h) \<Rightarrow> (\<forall>e\<in>set t. \<not> failed e)"
  by (simp add: main_setup_def Let_def split_def setup_stages_def release_functions_def
      print_usage_def failed_def)

lemma stage_calls_append: "stage_calls (a @ b) = stage_calls a @ stage_calls b"
  by (simp add: stage_calls_def calls_append)

lemma stage_calls_none:
  assumes "set (calls rest) \<subseteq>
           {Fgets, Fflush, Debugserver_command_new, Debugserver_command_free,
            Debug_proxy_send_command, Debug_proxy_read_response, Idevice_string_free,
            Debug_proxy_free, Rsd_handshake_free, Adapter_free}"
  shows "stage_calls rest = []"
proof -
  have "f \<notin> set setup_stages" if "f \<in> set (calls rest)" for f
    using that assms by (auto simp: setup_stages_def)
  then show ?thesis by (simp add: stage_calls_def)
qed

lemma always_followed_extend:
  assumes "always_followed R a" and "\<And>e post. R e post \<Longrightarrow> R e (post @ b)"
  shows "always_followed (\<lambda>e post. R e (post @ b)) a"
  using assms by (induction a) auto

lemma stage_events_append: "stage_events (a @ b) = stage_events a @ stage_events b"
  by (simp add: stage_events_def)

lemma stage_events_none:
  assumes "set (calls rest) \<subseteq>
           {Fgets, Fflush, Debugserver_command_new, Debugserver_command_free,
            Debug_proxy_send_command, Debug_proxy_read_response, Idevice_string_free,
            Debug_proxy_free, Rsd_handshake_free, Adapter_free}"
  shows "stage_events rest = []"
proof -
  have "\<not> (case called e of Some f \<Rightarrow> f \<in> set setup_stages | None \<Rightarrow> False)"
    if "e \<in> set rest" for e
  proof (cases "called e")
    case None
    then show ?thesis by simp
  next
    case (Some f)
    from called_calls [OF that Some] assms have "f \<notin> set setup_stages"
      by (auto simp: setup_stages_def)
    with Some show ?thesis by simp
  qed
  then show ?thesis by (simp add: stage_events_def)
qed

lemma main_setup_stage_events:
  "stage_events (fst (main_setup w)) =
     (if length (argv w) < 2 \<or> inet_pton_result w \<noteq> 1 then []
      else take (Suc (length (takeWhile (\<lambda>c. c = IdeviceSuccess) (stage_codes w))))
             (stages_as_specified w))"
  by (simp add: main_setup_def Let_def split_def stage_events_def setup_stages_def
      stages_as_specified_def stage_codes_def print_usage_def)

lemma main_setup_returns:
  "case snd (main_setup w) of
     Inl c \<Rightarrow> length (argv w) < 2 \<or> inet_pton_result w \<noteq> 1
               \<or> (\<exists>c\<in>set (stage_codes w). c \<noteq> IdeviceSuccess)
   | Inr h \<Rightarrow> \<not> (length (argv w) < 2 \<or> inet_pton_result w \<noteq> 1
               \<or> (\<exists>c\<in>set (stage_codes w). c \<noteq> IdeviceSuccess))"
  by (simp add: main_setup_def Let_def split_def stage_codes_def)

lemma main_setup_next_stage:
  "always_followed
     (\<lambda>e post. \<forall>f. called e = Some f \<and> f \<in> set setup_stages \<and> f \<noteq> Debug_proxy_connect_rsd
        \<and> returned_code e = Some IdeviceSuccess \<longrightarrow> stage_calls post \<noteq> [])
     (fst (main_setup w))"
  by (simp add: main_setup_def Let_def split_def setup_stages_def stage_calls_def print_usage_def)

lemma prefix_next:
  assumes "prefix (a @ b) ys" and "b \<noteq> []"
  shows "hd b = ys ! length a"
proof -
  from assms(1) obtain zs where "ys = a @ b @ zs"
    by (auto simp: prefix_def)
  with assms(2) show ?thesis
    by (cases b) (simp_all add: nth_append)
qed

text \<open>
  Claim C1. In a run of \<open>main\<close> that gets past its argument and address checks, the
  stage calls are exactly the eight stages of the specification, in their order, each
  with the handles the stages before it produced, up to and including the first that
  returns a code other than \<open>IdeviceSuccess\<close>: pairing-file read, TCP provider,
  CoreDeviceProxy connect, RSD port query, TCP adapter, stream connect, RSD handshake,
  debug proxy. So a stage that succeeds is followed by the next one, and a run that does
  not return 1 has made all eight calls. When a stage call returns a code other than
  \<open>IdeviceSuccess\<close>, \<open>main\<close> returns 1 and everything after that call is a diagnostic on
  \<open>stderr\<close> or the release of a handle: no stage, and no other operation, is invoked any
  more. \<open>main\<close> returns 1 exactly when a check or a stage fails.
\<close>

theorem setup_stages_in_order:
  "stage_events (fst (main w)) =
     (if length (argv w) < 2 \<or> inet_pton_result w \<noteq> 1 then []
      else take (Suc (length (takeWhile (\<lambda>c. c = IdeviceSuccess) (stage_codes w))))
             (stages_as_specified w))
   \<and> prefix (stage_calls (fst (main w))) setup_stages
   \<and> (\<forall>pre e post f.
        fst (main w) = pre @ e # post \<and> called e = Some f \<and> f \<in> set setup_stages \<and> failed e \<longrightarrow>
        snd (main w) = Returned 1 \<and> (\<forall>x\<in>set post. diagnostic_or_release x))
   \<and> (\<forall>pre e post f.
        fst (main w) = pre @ e # post \<and> called e = Some f \<and> f \<in> set setup_stages
        \<and> f \<noteq> Debug_proxy_connect_rsd \<and> returned_code e = Some IdeviceSuccess \<longrightarrow>
        stage_calls post \<noteq> []
        \<and> hd (stage_calls post) = setup_stages ! length (stage_calls (pre @ [e])))
   \<and> (snd (main w) = Returned 1 \<longleftrightarrow>
        length (argv w) < 2 \<or> inet_pton_result w \<noteq> 1
        \<or> (\<exists>c\<in>set (stage_codes w). c \<noteq> IdeviceSuccess))
   \<and> (snd (main w) \<noteq> Returned 1 \<longrightarrow> stage_calls (fst (main w)) = setup_stages)"
proof -
  obtain t r rest where m: "main_setup w = (t, r)" and tr: "fst (main w) = t @ rest"
    and rest: "set (calls rest) \<subseteq>
           {Fgets, Fflush, Debugserver_command_new, Debugserver_command_free,
            Debug_proxy_send_command, Debug_proxy_read_response, Idevice_string_free,
            Debug_proxy_free, Rsd_handshake_free, Adapter_free}"
    and r: "r = Inl 1 \<and> rest = [] \<and> snd (main w) = Returned 1
         \<or> (\<exists>h. r = Inr h) \<and> snd (main w) \<noteq> Returned 1"
    by (rule main_trace)
  have events: "stage_events (fst (main w)) =
     (if length (argv w) < 2 \<or> inet_pton_result w \<noteq> 1 then []
      else take (Suc (length (takeWhile (\<lambda>c. c = IdeviceSuccess) (stage_codes w))))
             (stages_as_specified w))"
    using main_setup_stage_events [of w] m
    by (simp add: tr stage_events_append stage_events_none [OF rest])
  have order: "prefix (stage_calls (fst (main w))) setup_stages"
    using main_setup_stage_calls [of w] m r
    by (auto simp: tr stage_calls_append stage_calls_none [OF rest])
  have failure: "snd (main w) = Returned 1 \<and> (\<forall>x\<in>set post. diagnostic_or_release x)"
    if d: "fst (main w) = pre @ e # post" and f: "called e = Some f" "f \<in> set setup_stages"
      and e: "failed e"
    for pre e post f
  proof -
    from r show ?thesis
    proof
      assume a: "r = Inl 1 \<and> rest = [] \<and> snd (main w) = Returned 1"
      with main_setup_failed_stage [of w] m
      have "always_followed
         (\<lambda>e post. \<forall>f. called e = Some f \<and> f \<in> set setup_stages \<and> failed e \<longrightarrow>
            (\<forall>x\<in>set post. diagnostic_or_release x)) t"
        by simp
      from always_followed_decomp [OF this, of pre e post] a d tr f e show ?thesis
        by auto
    next
      assume a: "(\<exists>h. r = Inr h) \<and> snd (main w) \<noteq> Returned 1"
      with main_setup_failed_stage [of w] m have "\<forall>e\<in>set t. \<not> failed e" by auto
      with e d tr have "e \<in> set rest"
        by (metis Un_iff in_set_conv_decomp set_append)
      from called_calls [OF this f(1)] rest f(2) have False
        by (auto simp: setup_stages_def)
      then show ?thesis ..
    qed
  qed
  let ?N = "\<lambda>e post. \<forall>f. called e = Some f \<and> f \<in> set setup_stages \<and> f \<noteq> Debug_proxy_connect_rsd
        \<and> returned_code e = Some IdeviceSuccess \<longrightarrow> stage_calls post \<noteq> []"
  have n1: "always_followed (\<lambda>e post. ?N e (post @ rest)) t"
  proof (rule always_followed_extend)
    show "always_followed ?N t" using main_setup_next_stage [of w] m by simp
    show "?N e (post @ rest)" if "?N e post" for e post
      using that by (auto simp: stage_calls_append)
  qed
  have n2: "always_followed ?N rest"
  proof (rule always_followed_all)
    fix e post
    assume e: "e \<in> set rest"
    show "?N e post"
    proof (intro allI impI)
      fix f
      assume "called e = Some f \<and> f \<in> set setup_stages \<and> f \<noteq> Debug_proxy_connect_rsd
        \<and> returned_code e = Some IdeviceSuccess"
      with called_calls [OF e, of f] rest have False
        by (auto simp: setup_stages_def)
      then show "stage_calls post \<noteq> []" ..
    qed
  qed
  from n1 n2 have nall: "always_followed ?N (fst (main w))"
    by (simp add: tr always_followed_append)
  have nxt: "stage_calls post \<noteq> []
        \<and> hd (stage_calls post) = setup_stages ! length (stage_calls (pre @ [e]))"
    if d: "fst (main w) = pre @ e # post" and f: "called e = Some f \<and> f \<in> set setup_stages
        \<and> f \<noteq> Debug_proxy_connect_rsd \<and> returned_code e = Some IdeviceSuccess"
    for pre e post f
  proof -
    from always_followed_decomp [OF nall d] f have ne: "stage_calls post \<noteq> []" by blast
    from d have "fst (main w) = (pre @ [e]) @ post" by simp
    with order have "prefix (stage_calls (pre @ [e]) @ stage_calls post) setup_stages"
      by (simp only: stage_calls_append)
    from prefix_next [OF this ne] ne show ?thesis by simp
  qed
  have ret: "snd (main w) = Returned 1 \<longleftrightarrow>
        length (argv w) < 2 \<or> inet_pton_result w \<noteq> 1
        \<or> (\<exists>c\<in>set (stage_codes w). c \<noteq> IdeviceSuccess)"
    using main_setup_returns [of w] m r by auto
  have all: "stage_calls (fst (main w)) = setup_stages" if "snd (main w) \<noteq> Returned 1"
    using that main_setup_stage_calls [of w] m r
    by (auto simp: tr stage_calls_append stage_calls_none [OF rest])
  from events order failure nxt ret all show ?thesis by blast
qed

theorem setup_stages_in_order_witness:
  "fst (main handshake_failure_world)
     = take 14 (fst (main handshake_failure_world))
       @ Call Rsd_handshake_new [Ptr 5] [Code (IdeviceFailure 5), Ptr 0]
       # drop 15 (fst (main handshake_failure_world))
   \<and> called (Call Rsd_handshake_new [Ptr 5] [Code (IdeviceFailure 5), Ptr 0]) = Some Rsd_handshake_new
   \<and> Rsd_handshake_new \<in> set setup_stages
   \<and> failed (Call Rsd_handshake_new [Ptr 5] [Code (IdeviceFailure 5), Ptr 0])
   \<and> snd (main handshake_failure_world) = Returned 1
   \<and> list_all diagnostic_or_release (drop 15 (fst (main handshake_failure_world)))
   \<and> prefix (stage_calls (fst (main handshake_failure_world))) setup_stages
   \<and> stage_events (fst (main handshake_failure_world))
       = take 7 (stages_as_specified handshake_failure_world)
   \<and> snd (main example_world) \<noteq> Returned 1
   \<and> stage_calls (fst (main example_world)) = setup_stages"
proof -
  have d: "fst (main handshake_failure_world)
     = take 14 (fst (main handshake_failure_world))
       @ Call Rsd_handshake_new [Ptr 5] [Code (IdeviceFailure 5), Ptr 0]
       # drop 15 (fst (main handshake_failure_world))"
    by code_simp
  have c: "called (Call Rsd_handshake_new [Ptr 5] [Code (IdeviceFailure 5), Ptr 0]) = Some Rsd_handshake_new"
    and s: "Rsd_handshake_new \<in> set setup_stages"
    and f: "failed (Call Rsd_handshake_new [Ptr 5] [Code (IdeviceFailure 5), Ptr 0])"
    by (simp_all add: setup_stages_def failed_def)
  have n: "\<not> (length (argv handshake_failure_world) < 2
            \<or> inet_pton_result handshake_failure_world \<noteq> 1)"
    and k: "Suc (length (takeWhile (\<lambda>c. c = IdeviceSuccess) (stage_codes handshake_failure_world))) = 7"
    by (simp_all add: handshake_failure_world_def example_world_def stage_codes_def)
  have x: "snd (main example_world) \<noteq> Returned 1"
    by code_simp
  note h = setup_stages_in_order [of handshake_failure_world]
  note g = setup_stages_in_order [of example_world]
  from h n k have 1: "stage_events (fst (main handshake_failure_world))
       = take 7 (stages_as_specified handshake_failure_world)"
    by simp
  from h have 2: "prefix (stage_calls (fst (main handshake_failure_world))) setup_stages"
    by blast
  from h d c s f have 3: "snd (main handshake_failure_world) = Returned 1
     \<and> (\<forall>x\<in>set (drop 15 (fst (main handshake_failure_world))). diagnostic_or_release x)"
    by blast
  from g x have 4: "stage_calls (fst (main example_world)) = setup_stages"
    by blast
  from d c s f 1 2 3 4 x show ?thesis
    unfolding list_all_iff by blast
qed

subsection \<open>The CoreDeviceProxy handle after the adapter exists\<close>

lemma main_setup_after_adapter:
  "always_followed
     (\<lambda>e post. (\<exists>args rets. e = Call Core_device_proxy_create_tcp_adapter args
                                   (Code IdeviceSuccess # rets)) \<longrightarrow>
        (\<forall>x\<in>set post. \<forall>f. called x = Some f \<longrightarrow> f \<notin> set core_device_proxy_functions))
     (fst (main_setup w))"
  by (simp add: main_setup_def Let_def split_def core_device_proxy_functions_def print_usage_def)

text \<open>
  Claim C7. In a run of \<open>main\<close>, after a call of
  \<open>core_device_proxy_create_tcp_adapter\<close> that returned \<open>IdeviceSuccess\<close>, no function
  that takes the CoreDeviceProxy handle is called any more, \<open>core_device_proxy_free\<close>
  included.
\<close>

theorem core_device_unused_after_adapter:
  assumes "fst (main w) =
     pre @ Call Core_device_proxy_create_tcp_adapter args (Code IdeviceSuccess # rets) # post"
  shows "\<forall>x\<in>set post. \<forall>f. called x = Some f \<longrightarrow> f \<notin> set core_device_proxy_functions"
proof -
  let ?R = "\<lambda>e post. (\<exists>args rets. e = Call Core_device_proxy_create_tcp_adapter args
                                   (Code IdeviceSuccess # rets)) \<longrightarrow>
        (\<forall>x\<in>set post. \<forall>f. called x = Some f \<longrightarrow> f \<notin> set core_device_proxy_functions)"
  obtain t r rest where m: "main_setup w = (t, r)" and tr: "fst (main w) = t @ rest"
    and rest: "set (calls rest) \<subseteq>
           {Fgets, Fflush, Debugserver_command_new, Debugserver_command_free,
            Debug_proxy_send_command, Debug_proxy_read_response, Idevice_string_free,
            Debug_proxy_free, Rsd_handshake_free, Adapter_free}"
    by (rule main_trace)
  have q: "f \<notin> set core_device_proxy_functions" if "x \<in> set rest" "called x = Some f" for x f
    using called_calls [OF that] rest by (auto simp: core_device_proxy_functions_def)
  have 1: "always_followed (\<lambda>e post. ?R e (post @ rest)) t"
  proof (rule always_followed_extend)
    show "always_followed ?R t" using main_setup_after_adapter [of w] m by simp
    show "?R e (post @ rest)" if "?R e post" for e post
      using that q by auto
  qed
  have 2: "always_followed ?R rest"
  proof (rule always_followed_all)
    fix e post
    assume "e \<in> set rest"
    from called_calls [OF this, of Core_device_proxy_create_tcp_adapter] rest
    show "?R e post" by auto
  qed
  from 1 2 have "always_followed ?R (fst (main w))"
    by (simp add: tr always_followed_append)
  from always_followed_decomp [OF this assms] show ?thesis by blast
qed

theorem core_device_unused_after_adapter_witness:
  "fst (main example_world)
     = take 10 (fst (main example_world))
       @ Call Core_device_proxy_create_tcp_adapter [Ptr 3] [Code IdeviceSuccess, Ptr 4]
       # drop 11 (fst (main example_world))
   \<and> Core_device_proxy_free \<notin> set (calls (drop 11 (fst (main example_world))))
   \<and> Core_device_proxy_get_server_rsd_port \<notin> set (calls (drop 11 (fst (main example_world))))"
proof -
  have d: "fst (main example_world)
     = take 10 (fst (main example_world))
       @ Call Core_device_proxy_create_tcp_adapter [Ptr 3] (Code IdeviceSuccess # [Ptr 4])
       # drop 11 (fst (main example_world))"
    by code_simp
  have "f \<notin> set core_device_proxy_functions"
    if "f \<in> set (calls (drop 11 (fst (main example_world))))" for f
    using core_device_unused_after_adapter [OF d] calls_called [OF that] by blast
  with d show ?thesis
    by (auto simp: core_device_proxy_functions_def)
qed

subsection \<open>The RSD port and the stream\<close>

lemma main_setup_port_and_stream:
  "always_preceded
     (\<lambda>pre e.
        (\<forall>args rets. e = Call Adapter_connect args rets \<longrightarrow>
           args = [Ptr (snd (create_tcp_adapter_result w)), U16 (snd (get_server_rsd_port_result w))]
           \<and> Call Core_device_proxy_get_server_rsd_port
                [Ptr (snd (core_device_proxy_connect_result w))]
                [Code IdeviceSuccess, U16 (snd (get_server_rsd_port_result w))] \<in> set pre
           \<and> Adapter_connect \<notin> set (calls pre)
           \<and> fst (get_server_rsd_port_result w) = IdeviceSuccess)
        \<and> (\<forall>args rets. e = Call Rsd_handshake_new args rets \<longrightarrow>
           args = [Ptr (snd (adapter_connect_result w))]
           \<and> Call Adapter_connect
                [Ptr (snd (create_tcp_adapter_result w)), U16 (snd (get_server_rsd_port_result w))]
                [Code IdeviceSuccess, Ptr (snd (adapter_connect_result w))] \<in> set pre))
     [] (fst (main_setup w))"
  by (simp add: main_setup_def Let_def split_def print_usage_def)

lemma main_port_and_stream:
  "always_preceded
     (\<lambda>pre e.
        (\<forall>args rets. e = Call Adapter_connect args rets \<longrightarrow>
           args = [Ptr (snd (create_tcp_adapter_result w)), U16 (snd (get_server_rsd_port_result w))]
           \<and> Call Core_device_proxy_get_server_rsd_port
                [Ptr (snd (core_device_proxy_connect_result w))]
                [Code IdeviceSuccess, U16 (snd (get_server_rsd_port_result w))] \<in> set pre
           \<and> Adapter_connect \<notin> set (calls pre)
           \<and> fst (get_server_rsd_port_result w) = IdeviceSuccess)
        \<and> (\<forall>args rets. e = Call Rsd_handshake_new args rets \<longrightarrow>
           args = [Ptr (snd (adapter_connect_result w))]
           \<and> Call Adapter_connect
                [Ptr (snd (create_tcp_adapter_result w)), U16 (snd (get_server_rsd_port_result w))]
                [Code IdeviceSuccess, Ptr (snd (adapter_connect_result w))] \<in> set pre))
     [] (fst (main w))"
  (is "always_preceded ?R [] _")
proof -
  obtain t r rest where m: "main_setup w = (t, r)" and tr: "fst (main w) = t @ rest"
    and rest: "set (calls rest) \<subseteq>
           {Fgets, Fflush, Debugserver_command_new, Debugserver_command_free,
            Debug_proxy_send_command, Debug_proxy_read_response, Idevice_string_free,
            Debug_proxy_free, Rsd_handshake_free, Adapter_free}"
    by (rule main_trace)
  have 1: "always_preceded ?R [] t"
    using main_setup_port_and_stream [of w] m by simp
  have 2: "always_preceded ?R t rest"
  proof (rule always_preceded_all)
    fix e pre
    assume "e \<in> set rest"
    from called_calls [OF this, of Adapter_connect] called_calls [OF this, of Rsd_handshake_new] rest
    show "?R pre e" by auto
  qed
  from 1 2 show ?thesis by (simp add: tr always_preceded_append)
qed

text \<open>
  Claim C3. Wherever a run of \<open>main\<close> calls \<open>adapter_connect\<close>, the port argument is the
  port that a successful call of \<open>core_device_proxy_get_server_rsd_port\<close> returned
  earlier in the run, and \<open>adapter_connect\<close> is called nowhere else in the run, so no other
  port is used. Wherever the run calls \<open>rsd_handshake_new\<close>, its argument is the stream
  that a successful \<open>adapter_connect\<close> returned earlier.
\<close>

theorem rsd_port_passed_unchanged:
  "(\<forall>pre args rets post. fst (main w) = pre @ Call Adapter_connect args rets # post \<longrightarrow>
      (\<exists>adapter core_device port.
         args = [Ptr adapter, U16 port]
         \<and> get_server_rsd_port_result w = (IdeviceSuccess, port)
         \<and> Call Core_device_proxy_get_server_rsd_port [Ptr core_device]
              [Code IdeviceSuccess, U16 port] \<in> set pre)
      \<and> Adapter_connect \<notin> set (calls pre) \<and> Adapter_connect \<notin> set (calls post))
   \<and> (\<forall>pre args rets post. fst (main w) = pre @ Call Rsd_handshake_new args rets # post \<longrightarrow>
      (\<exists>adapter port stream.
         args = [Ptr stream]
         \<and> Call Adapter_connect [Ptr adapter, U16 port] [Code IdeviceSuccess, Ptr stream]
              \<in> set pre))"
proof -
  note P = always_preceded_decomp [OF main_port_and_stream, of w, simplified]
  have connect: "(\<exists>adapter core_device port.
         args = [Ptr adapter, U16 port]
         \<and> get_server_rsd_port_result w = (IdeviceSuccess, port)
         \<and> Call Core_device_proxy_get_server_rsd_port [Ptr core_device]
              [Code IdeviceSuccess, U16 port] \<in> set pre)
      \<and> Adapter_connect \<notin> set (calls pre) \<and> Adapter_connect \<notin> set (calls post)"
    if d: "fst (main w) = pre @ Call Adapter_connect args rets # post" for pre args rets post
  proof -
    from P [OF d]
    have a: "args = [Ptr (snd (create_tcp_adapter_result w)), U16 (snd (get_server_rsd_port_result w))]"
      and q: "Call Core_device_proxy_get_server_rsd_port
                [Ptr (snd (core_device_proxy_connect_result w))]
                [Code IdeviceSuccess, U16 (snd (get_server_rsd_port_result w))] \<in> set pre"
      and n: "Adapter_connect \<notin> set (calls pre)"
      and "fst (get_server_rsd_port_result w) = IdeviceSuccess"
      by simp_all
    then have g: "get_server_rsd_port_result w = (IdeviceSuccess, snd (get_server_rsd_port_result w))"
      by (cases "get_server_rsd_port_result w") simp
    have "Adapter_connect \<notin> set (calls post)"
    proof
      assume "Adapter_connect \<in> set (calls post)"
      then obtain e' where e': "e' \<in> set post" and c: "called e' = Some Adapter_connect"
        using calls_called by blast
      from c obtain a' r' where ev: "e' = Call Adapter_connect a' r'"
        by (cases e') auto
      from e' obtain p1 p2 where "post = p1 @ e' # p2"
        by (meson split_list)
      with d ev have "fst (main w) = (pre @ Call Adapter_connect args rets # p1)
          @ Call Adapter_connect a' r' # p2"
        by simp
      from P [OF this] show False
        by (simp add: calls_append)
    qed
    with a q n g show ?thesis by blast
  qed
  have handshake: "\<exists>adapter port stream.
         args = [Ptr stream]
         \<and> Call Adapter_connect [Ptr adapter, U16 port] [Code IdeviceSuccess, Ptr stream]
              \<in> set pre"
    if d: "fst (main w) = pre @ Call Rsd_handshake_new args rets # post" for pre args rets post
    using P [OF d] by blast
  from connect handshake show ?thesis by blast
qed

theorem rsd_port_passed_unchanged_witness:
  "fst (main example_world)
     = take 11 (fst (main example_world))
       @ Call Adapter_connect [Ptr 4, U16 58783] [Code IdeviceSuccess, Ptr 5]
       # drop 12 (fst (main example_world))
   \<and> get_server_rsd_port_result example_world = (IdeviceSuccess, 58783)
   \<and> Adapter_connect \<notin> set (calls (drop 12 (fst (main example_world))))
   \<and> fst (main example_world)
     = take 14 (fst (main example_world))
       @ Call Rsd_handshake_new [Ptr 5] [Code IdeviceSuccess, Ptr 6]
       # drop 15 (fst (main example_world))"
proof -
  have c: "fst (main example_world)
     = take 11 (fst (main example_world))
       @ Call Adapter_connect [Ptr 4, U16 58783] [Code IdeviceSuccess, Ptr 5]
       # drop 12 (fst (main example_world))"
    by code_simp
  have h: "fst (main example_world)
     = take 14 (fst (main example_world))
       @ Call Rsd_handshake_new [Ptr 5] [Code IdeviceSuccess, Ptr 6]
       # drop 15 (fst (main example_world))"
    by code_simp
  from rsd_port_passed_unchanged [of example_world] c
  have "(\<exists>adapter core_device port.
         [Ptr 4, U16 58783] = [Ptr adapter, U16 port]
         \<and> get_server_rsd_port_result example_world = (IdeviceSuccess, port))
      \<and> Adapter_connect \<notin> set (calls (drop 12 (fst (main example_world))))"
    by blast
  with c h show ?thesis by auto
qed

subsection \<open>Failures and their diagnostics\<close>

lemma drain_returned_code:
  "e \<in> set (fst (drain dp reads)) \<Longrightarrow> returned_code e = Some c \<Longrightarrow>
     called e = Some Debug_proxy_read_response"
proof (induction reads)
  case Nil
  then show ?case by simp
next
  case (Cons a reads)
  obtain err response where a: "a = (err, response)" by (cases a)
  obtain t reads' left where d: "drain dp reads = (t, reads', left)"
    by (cases "drain dp reads")
  from Cons d show ?case
    by (auto simp: a split: if_splits)
qed

lemma main_setup_diagnosed:
  "case main_setup w of
     (t, Inl c) \<Rightarrow>
       always_followed
         (\<lambda>e post. \<forall>c. returned_code e = Some c \<longrightarrow> c \<noteq> IdeviceSuccess \<longrightarrow>
            called e \<noteq> Some Adapter_close \<longrightarrow> diagnosed c post) t
   | (t, Inr h) \<Rightarrow> (\<forall>e\<in>set t. \<not> failed e)"
  by (simp add: main_setup_def Let_def split_def print_usage_def failed_def)

lemma failures_diagnosed:
  "always_followed
     (\<lambda>e post. \<forall>c. returned_code e = Some c \<longrightarrow> c \<noteq> IdeviceSuccess \<longrightarrow>
        called e \<noteq> Some Debug_proxy_read_response \<longrightarrow> called e \<noteq> Some Adapter_close \<longrightarrow>
        diagnosed c post)
     (fst (main w))"
  (is "always_followed ?R _")
proof (rule main_always_followed)
  fix t
  assume "main_setup w = (t, Inl 1)"
  with main_setup_diagnosed [of w]
  have "always_followed
         (\<lambda>e post. \<forall>c. returned_code e = Some c \<longrightarrow> c \<noteq> IdeviceSuccess \<longrightarrow>
            called e \<noteq> Some Adapter_close \<longrightarrow> diagnosed c post) t"
    by simp
  then show "always_followed ?R t"
    by (induction t) auto
next
  fix t h and k :: "event list"
  assume "main_setup w = (t, Inr h)"
  with main_setup_diagnosed [of w] have "\<forall>e\<in>set t. \<not> failed e" by simp
  then show "always_followed (\<lambda>e post. ?R e (post @ k)) t"
    by (intro always_followed_all) (auto simp: failed_def)
next
  fix fmt post
  show "?R (Printf fmt []) post" by simp
next
  fix dp hs ad
  show "always_followed ?R (cleanup dp hs ad)"
    by (simp add: cleanup_def)
next
  fix t dp hs ad
  show "always_followed
          (\<lambda>e post. ?R e (post @ (if snd (shell dp (initial_shell_state w))
                                    then cleanup dp hs ad else [])))
          (fst (shell dp (initial_shell_state w)))"
  proof (rule shell_always_followed)
    fix s t c s' and k :: "event list"
    assume body: "shell_body dp s = (t, c, s')"
    from body have t: "t = fst (shell_body dp s)" by simp
    show "always_followed (\<lambda>e post. ?R e (post @ k)) t"
    proof (cases rule: shell_body_cases [of s dp])
      case eof
      show ?thesis unfolding t eof(2) by simp
    next
      case (quit buf rest)
      show ?thesis unfolding t quit(3) by simp
    next
      case (no_command_answer buf rest)
      show ?thesis unfolding t no_command_answer(4) by simp
    next
      case (null_command buf rest name args argc cmds)
      show ?thesis unfolding t null_command(5)
        by (cases name; cases args) (simp_all add: str_val_def strs_val_def)
    next
      case (no_send_answer buf rest name args argc c cmds)
      show ?thesis unfolding t no_send_answer(6)
        by (cases name; cases args) (simp_all add: str_val_def strs_val_def)
    next
      case (send_failed buf rest name args argc c cmds err response sends)
      show ?thesis unfolding t send_failed(7)
        by (cases name; cases args) (simp_all add: str_val_def strs_val_def)
    next
      case (sent buf rest name args argc c cmds response sends td reads left)
      have td: "always_followed (\<lambda>e post. ?R e (post @ k)) td"
        using drain_returned_code [of _ dp "read_answers s"] sent(6)
        by (intro always_followed_all) auto
      show ?thesis unfolding t sent(7) using td
        by (cases name; cases args; cases response)
           (simp_all add: str_val_def strs_val_def always_followed_append)
    qed
  qed
qed

text \<open>A read that fails is followed by the next prompt, with nothing in between.\<close>

lemma drain_failure_then_prompt:
  assumes "drain dp reads = (td, reads', left)"
    and "left \<longrightarrow> take 2 k = [Printf ''debug> '' [], Call Fflush [Sym ''stdout''] []]"
  shows "always_followed
     (\<lambda>e post. called e = Some Debug_proxy_read_response \<and> failed e \<longrightarrow>
        take 2 (post @ k) = [Printf ''debug> '' [], Call Fflush [Sym ''stdout''] []]) td"
  using assms
proof (induction reads arbitrary: td reads' left)
  case Nil
  then show ?case by simp
next
  case (Cons a reads)
  obtain err response where a: "a = (err, response)" by (cases a)
  show ?case
  proof (cases "err \<noteq> IdeviceSuccess \<or> response = None")
    case True
    with Cons.prems a show ?thesis by auto
  next
    case False
    then obtain r where r: "response = Some r" and e: "err = IdeviceSuccess" by auto
    obtain t reads'' left' where d: "drain dp reads = (t, reads'', left')"
      by (cases "drain dp reads")
    from Cons.prems(1) a r e d
    have td: "td = Call Debug_proxy_read_response [Ptr dp] [Code IdeviceSuccess, Str r]
                # Printf ''%s\<newline>'' [Str r] # Call Idevice_string_free [Str r] [] # t"
      and l: "left = left'"
      by (simp_all add: str_val_def)
    from Cons.IH [OF d] Cons.prems(2) l show ?thesis
      unfolding td by (simp add: failed_def)
  qed
qed

lemma read_failure_then_prompt:
  "always_followed
     (\<lambda>e post. called e = Some Debug_proxy_read_response \<and> failed e \<longrightarrow>
        take 2 post = [Printf ''debug> '' [], Call Fflush [Sym ''stdout''] []])
     (fst (main w))"
  (is "always_followed ?R _")
proof (rule main_always_followed)
  fix t
  assume m: "main_setup w = (t, Inl 1)"
  show "always_followed ?R t"
  proof (rule always_followed_all)
    fix e post
    assume "e \<in> set t"
    from main_setup_called [OF m this, of Debug_proxy_read_response] show "?R e post" by auto
  qed
next
  fix t h and k :: "event list"
  assume m: "main_setup w = (t, Inr h)"
  show "always_followed (\<lambda>e post. ?R e (post @ k)) t"
  proof (rule always_followed_all)
    fix e post
    assume "e \<in> set t"
    from main_setup_called [OF m this, of Debug_proxy_read_response]
    show "?R e (post @ k)" by auto
  qed
next
  fix fmt post
  show "?R (Printf fmt []) post" by simp
next
  fix dp hs ad
  show "always_followed ?R (cleanup dp hs ad)"
    by (simp add: cleanup_def)
next
  fix t dp hs ad
  show "always_followed
          (\<lambda>e post. ?R e (post @ (if snd (shell dp (initial_shell_state w))
                                    then cleanup dp hs ad else [])))
          (fst (shell dp (initial_shell_state w)))"
  proof (rule shell_always_followed)
    fix s t c s' and k :: "event list"
    assume run: "running s" and body: "shell_body dp s = (t, c, s')"
      and next_prompt: "c = Next \<and> running s' \<longrightarrow>
         (\<exists>g rest. k = Printf ''debug> '' [] # Call Fflush [Sym ''stdout''] [] # g # rest
            \<and> called g = Some Fgets)"
    from body have t: "t = fst (shell_body dp s)" and c: "c = fst (snd (shell_body dp s))"
      and s': "s' = snd (snd (shell_body dp s))"
      by simp_all
    show "always_followed (\<lambda>e post. ?R e (post @ k)) t"
    proof (cases rule: shell_body_cases [of s dp])
      case eof
      show ?thesis unfolding t eof(2) by simp
    next
      case (quit buf rest)
      show ?thesis unfolding t quit(3) by simp
    next
      case (no_command_answer buf rest)
      show ?thesis unfolding t no_command_answer(4) by simp
    next
      case (null_command buf rest name args argc cmds)
      show ?thesis unfolding t null_command(5) by simp
    next
      case (no_send_answer buf rest name args argc c cmds)
      show ?thesis unfolding t no_send_answer(6) by simp
    next
      case (send_failed buf rest name args argc cmd cmds err response sends)
      show ?thesis unfolding t send_failed(7) by simp
    next
      case (sent buf rest name args argc cmd cmds response sends td reads left)
      have k1: "left \<longrightarrow> take 2 k = [Printf ''debug> '' [], Call Fflush [Sym ''stdout''] []]"
        using next_prompt run unfolding c s' sent(7) by auto
      have td: "always_followed (\<lambda>e post. ?R e (post @ k)) td"
        by (rule drain_failure_then_prompt [OF sent(6) k1])
      show ?thesis unfolding t sent(7) using td
        by (cases response) (simp_all add: always_followed_append)
    qed
  qed
qed

text \<open>The two calls whose status \<open>main\<close> discards.\<close>

lemma main_setup_discarded:
  "map called (take 2 (fst (main_setup w))) = [Some Idevice_init_logger, None]
   \<and> hd (fst (main_setup w))
       = Call Idevice_init_logger [Sym ''Info'', Sym ''Disabled'', Null] [Num (init_logger_result w)]
   \<and> \<not> is_diagnostic (fst (main_setup w) ! 1)
   \<and> always_followed
       (\<lambda>e post. called e = Some Adapter_close \<longrightarrow>
          e = Call Adapter_close [Ptr (snd (adapter_connect_result w))]
                [Code (adapter_close_result w)]
          \<and> post = [Call Adapter_free [Ptr (snd (create_tcp_adapter_result w))] []])
       (fst (main_setup w))
   \<and> (Adapter_close \<in> set (calls (fst (main_setup w))) \<longrightarrow> snd (main_setup w) = Inl 1)"
  by (simp add: main_setup_def Let_def split_def print_usage_def)

text \<open>
  Claim C5, as amended. Whenever one of the eight setup calls or
  \<open>debug_proxy_send_command\<close> (any call whose code the driver reads, other than
  \<open>debug_proxy_read_response\<close>) returns a code other than \<open>IdeviceSuccess\<close>, the next
  thing the driver does, after releasing the command when the call was
  \<open>debug_proxy_send_command\<close>, is to print a diagnostic with that code on \<open>stderr\<close>. The
  driver reports nothing in three places, in every run: a \<open>debug_proxy_read_response\<close>
  that returns another code is followed at once by the next prompt; whatever
  \<open>adapter_close\<close> returns, the release of the adapter follows and the run ends; whatever
  \<open>idevice_init_logger\<close> returns, the run goes on with a print on \<open>stdout\<close>.
\<close>

theorem failure_is_reported:
  "(\<forall>pre e post c.
      fst (main w) = pre @ e # post \<and> returned_code e = Some c \<and> c \<noteq> IdeviceSuccess
      \<and> called e \<noteq> Some Debug_proxy_read_response \<and> called e \<noteq> Some Adapter_close \<longrightarrow>
      diagnosed c post)
   \<and> (\<forall>pre e post.
        fst (main w) = pre @ e # post \<and> called e = Some Debug_proxy_read_response \<and> failed e \<longrightarrow>
        take 2 post = [Printf ''debug> '' [], Call Fflush [Sym ''stdout''] []])
   \<and> (\<forall>pre e post.
        fst (main w) = pre @ e # post \<and> called e = Some Adapter_close \<longrightarrow>
        e = Call Adapter_close [Ptr (snd (adapter_connect_result w))] [Code (adapter_close_result w)]
        \<and> post = [Call Adapter_free [Ptr (snd (create_tcp_adapter_result w))] []]
        \<and> snd (main w) = Returned 1)
   \<and> hd (fst (main w))
       = Call Idevice_init_logger [Sym ''Info'', Sym ''Disabled'', Null] [Num (init_logger_result w)]
   \<and> map called (take 2 (fst (main w))) = [Some Idevice_init_logger, None]
   \<and> \<not> is_diagnostic (fst (main w) ! 1)"
proof -
  have reported: "diagnosed c post"
    if "fst (main w) = pre @ e # post \<and> returned_code e = Some c \<and> c \<noteq> IdeviceSuccess
      \<and> called e \<noteq> Some Debug_proxy_read_response \<and> called e \<noteq> Some Adapter_close"
    for pre e post c
    using that always_followed_decomp [OF failures_diagnosed, of w pre e post] by blast
  have read: "take 2 post = [Printf ''debug> '' [], Call Fflush [Sym ''stdout''] []]"
    if "fst (main w) = pre @ e # post \<and> called e = Some Debug_proxy_read_response \<and> failed e"
    for pre e post
    using that always_followed_decomp [OF read_failure_then_prompt, of w pre e post] by blast
  obtain t r rest where m: "main_setup w = (t, r)" and tr: "fst (main w) = t @ rest"
    and rest: "set (calls rest) \<subseteq>
           {Fgets, Fflush, Debugserver_command_new, Debugserver_command_free,
            Debug_proxy_send_command, Debug_proxy_read_response, Idevice_string_free,
            Debug_proxy_free, Rsd_handshake_free, Adapter_free}"
    and r: "r = Inl 1 \<and> rest = [] \<and> snd (main w) = Returned 1
         \<or> (\<exists>h. r = Inr h) \<and> snd (main w) \<noteq> Returned 1"
    by (rule main_trace)
  note dis = main_setup_discarded [of w, unfolded m fst_conv snd_conv]
  from dis have t2: "map called (take 2 t) = [Some Idevice_init_logger, None]" by (rule conjunct1)
  from dis have hd: "hd t = Call Idevice_init_logger [Sym ''Info'', Sym ''Disabled'', Null]
                       [Num (init_logger_result w)]"
    by (elim conjE)
  from dis have nd: "\<not> is_diagnostic (t ! 1)" by (elim conjE)
  from dis have af: "always_followed
       (\<lambda>e post. called e = Some Adapter_close \<longrightarrow>
          e = Call Adapter_close [Ptr (snd (adapter_connect_result w))]
                [Code (adapter_close_result w)]
          \<and> post = [Call Adapter_free [Ptr (snd (create_tcp_adapter_result w))] []]) t"
    by (elim conjE)
  from dis have cl: "Adapter_close \<in> set (calls t) \<longrightarrow> r = Inl 1" by (elim conjE)
  have close: "e = Call Adapter_close [Ptr (snd (adapter_connect_result w))]
                     [Code (adapter_close_result w)]
        \<and> post = [Call Adapter_free [Ptr (snd (create_tcp_adapter_result w))] []]
        \<and> snd (main w) = Returned 1"
    if d: "fst (main w) = pre @ e # post" and c: "called e = Some Adapter_close"
    for pre e post
  proof -
    from d have "e \<in> set (fst (main w))" by simp
    then have "e \<in> set t \<or> e \<in> set rest" unfolding tr by simp
    moreover have "e \<notin> set rest"
    proof
      assume "e \<in> set rest"
      from called_calls [OF this c] rest show False by auto
    qed
    ultimately have "e \<in> set t" by simp
    from called_calls [OF this c] cl have "r = Inl 1" by simp
    with r have "rest = []" and out: "snd (main w) = Returned 1" by simp_all
    with tr d have "t = pre @ e # post" by simp
    from always_followed_decomp [OF af this] c
    have "e = Call Adapter_close [Ptr (snd (adapter_connect_result w))]
                [Code (adapter_close_result w)]
          \<and> post = [Call Adapter_free [Ptr (snd (create_tcp_adapter_result w))] []]"
      by simp
    with out show ?thesis by simp
  qed
  from t2 have "length (map called (take 2 t)) = 2" by simp
  then have len: "2 \<le> length t" by simp
  then obtain a b t' where t: "t = a # b # t'"
    by (cases t; cases "tl t") simp_all
  from t2 hd nd have init: "hd (fst (main w))
       = Call Idevice_init_logger [Sym ''Info'', Sym ''Disabled'', Null] [Num (init_logger_result w)]
   \<and> map called (take 2 (fst (main w))) = [Some Idevice_init_logger, None]
   \<and> \<not> is_diagnostic (fst (main w) ! 1)"
    unfolding tr t by simp
  from reported read close init show ?thesis by blast
qed

theorem failure_is_reported_witness:
  "fst (main example_world)
     = take 35 (fst (main example_world))
       @ Call Debug_proxy_send_command [Ptr 7, Ptr 9] [Code (IdeviceFailure (- 3)), Null]
       # drop 36 (fst (main example_world))
   \<and> returned_code (Call Debug_proxy_send_command [Ptr 7, Ptr 9] [Code (IdeviceFailure (- 3)), Null])
       = Some (IdeviceFailure (- 3))
   \<and> IdeviceFailure (- 3) \<noteq> IdeviceSuccess
   \<and> diagnosed (IdeviceFailure (- 3)) (drop 36 (fst (main example_world)))
   \<and> take 2 (drop 36 (fst (main example_world)))
       = [Call Debugserver_command_free [Ptr 9] [],
          Fprintf_stderr ''Command failed with error: %d\<newline>'' [Code (IdeviceFailure (- 3))]]
   \<and> fst (main example_world)
     = take 30 (fst (main example_world))
       @ Call Debug_proxy_read_response [Ptr 7] [Code (IdeviceFailure (- 1)), Null]
       # drop 31 (fst (main example_world))
   \<and> take 2 (drop 31 (fst (main example_world)))
       = [Printf ''debug> '' [], Call Fflush [Sym ''stdout''] []]
   \<and> fst (main handshake_failure_world)
     = take 16 (fst (main handshake_failure_world))
       @ Call Adapter_close [Ptr 5] [Code IdeviceSuccess]
       # drop 17 (fst (main handshake_failure_world))
   \<and> drop 17 (fst (main handshake_failure_world)) = [Call Adapter_free [Ptr 4] []]"
proof -
  have d: "fst (main example_world)
     = take 35 (fst (main example_world))
       @ Call Debug_proxy_send_command [Ptr 7, Ptr 9] [Code (IdeviceFailure (- 3)), Null]
       # drop 36 (fst (main example_world))"
    by code_simp
  have t: "take 2 (drop 36 (fst (main example_world)))
       = [Call Debugserver_command_free [Ptr 9] [],
          Fprintf_stderr ''Command failed with error: %d\<newline>'' [Code (IdeviceFailure (- 3))]]"
    by code_simp
  have rd: "fst (main example_world)
     = take 30 (fst (main example_world))
       @ Call Debug_proxy_read_response [Ptr 7] [Code (IdeviceFailure (- 1)), Null]
       # drop 31 (fst (main example_world))"
    by code_simp
  have cl: "fst (main handshake_failure_world)
     = take 16 (fst (main handshake_failure_world))
       @ Call Adapter_close [Ptr 5] [Code IdeviceSuccess]
       # drop 17 (fst (main handshake_failure_world))"
    by code_simp
  have w: "snd (create_tcp_adapter_result handshake_failure_world) = 4"
    by (simp add: handshake_failure_world_def example_world_def)
  note e = failure_is_reported [of example_world]
  note h = failure_is_reported [of handshake_failure_world]
  from e [THEN conjunct1, rule_format, of "take 35 (fst (main example_world))"
            "Call Debug_proxy_send_command [Ptr 7, Ptr 9] [Code (IdeviceFailure (- 3)), Null]"
            "drop 36 (fst (main example_world))" "IdeviceFailure (- 3)"] d
  have 1: "diagnosed (IdeviceFailure (- 3)) (drop 36 (fst (main example_world)))"
    by simp
  from e [THEN conjunct2, THEN conjunct1, rule_format, of "take 30 (fst (main example_world))"
            "Call Debug_proxy_read_response [Ptr 7] [Code (IdeviceFailure (- 1)), Null]"
            "drop 31 (fst (main example_world))"] rd
  have 2: "take 2 (drop 31 (fst (main example_world)))
       = [Printf ''debug> '' [], Call Fflush [Sym ''stdout''] []]"
    by (simp add: failed_def)
  from h [THEN conjunct2, THEN conjunct2, THEN conjunct1, rule_format,
          of "take 16 (fst (main handshake_failure_world))"
             "Call Adapter_close [Ptr 5] [Code IdeviceSuccess]"
             "drop 17 (fst (main handshake_failure_world))"] cl w
  have 3: "drop 17 (fst (main handshake_failure_world)) = [Call Adapter_free [Ptr 4] []]"
    by simp
  from d t rd cl 1 2 3 show ?thesis by simp
qed

theorem read_failure_not_reported_counterexample:
  "Call Debug_proxy_read_response [Ptr 7] [Code (IdeviceFailure (- 1)), Null]
     \<in> set (fst (main read_failure_world))
   \<and> failed (Call Debug_proxy_read_response [Ptr 7] [Code (IdeviceFailure (- 1)), Null])
   \<and> filter is_diagnostic (fst (main read_failure_world)) = []
   \<and> snd (main read_failure_world) = Returned 0"
  by code_simp

subsection \<open>A command that fails\<close>

lemma main_setup_not_loop:
  assumes "main_setup w = (t, r)" and "Call f a rets \<in> set t"
  shows "f \<notin> {Fgets, Fflush, Debugserver_command_new, Debugserver_command_free,
               Debug_proxy_send_command, Debug_proxy_read_response, Idevice_string_free}"
  using main_setup_called [OF assms, of f] by auto

lemma drain_call:
  assumes "drain dp reads = (td, reads', left)" and "Call f a rets \<in> set td"
  shows "f = Debug_proxy_read_response \<or> f = Idevice_string_free"
  using drain_called [OF assms, of f] by simp

lemma send_failure_continues:
  "always_followed
     (\<lambda>e post. \<forall>args c rets. e = Call Debug_proxy_send_command args (Code c # rets) \<longrightarrow>
        c \<noteq> IdeviceSuccess \<longrightarrow>
        map called (take 5 post)
          = [Some Debugserver_command_free, None, None, Some Fflush, Some Fgets]
        \<and> take 2 (tl post)
          = [Fprintf_stderr ''Command failed with error: %d\<newline>'' [Code c],
             Printf ''debug> '' []])
     (fst (main w))"
  (is "always_followed ?R _")
proof (rule main_always_followed)
  fix t
  assume "main_setup w = (t, Inl 1)"
  then show "always_followed ?R t"
    by (intro always_followed_all) (auto dest: main_setup_not_loop)
next
  fix t h and k :: "event list"
  assume "main_setup w = (t, Inr h)"
  then show "always_followed (\<lambda>e post. ?R e (post @ k)) t"
    by (intro always_followed_all) (auto dest: main_setup_not_loop)
next
  fix fmt post
  show "?R (Printf fmt []) post" by simp
next
  fix dp hs ad
  show "always_followed ?R (cleanup dp hs ad)"
    by (simp add: cleanup_def)
next
  fix t dp hs ad
  show "always_followed
          (\<lambda>e post. ?R e (post @ (if snd (shell dp (initial_shell_state w))
                                    then cleanup dp hs ad else [])))
          (fst (shell dp (initial_shell_state w)))"
  proof (rule shell_always_followed)
    fix s t c s' and k :: "event list"
    assume run: "running s" and body: "shell_body dp s = (t, c, s')"
      and next_prompt: "c = Next \<and> running s' \<longrightarrow>
         (\<exists>g rest. k = Printf ''debug> '' [] # Call Fflush [Sym ''stdout''] [] # g # rest
            \<and> called g = Some Fgets)"
    from body have t: "t = fst (shell_body dp s)" and c: "c = fst (snd (shell_body dp s))"
      and s': "s' = snd (snd (shell_body dp s))"
      by simp_all
    show "always_followed (\<lambda>e post. ?R e (post @ k)) t"
    proof (cases rule: shell_body_cases [of s dp])
      case eof
      show ?thesis unfolding t eof(2) by simp
    next
      case (quit buf rest)
      show ?thesis unfolding t quit(3) by simp
    next
      case (no_command_answer buf rest)
      show ?thesis unfolding t no_command_answer(4) by simp
    next
      case (null_command buf rest name args argc cmds)
      show ?thesis unfolding t null_command(5) by simp
    next
      case (no_send_answer buf rest name args argc c cmds)
      show ?thesis unfolding t no_send_answer(6) by simp
    next
      case (send_failed buf rest name args argc cmd cmds err response sends)
      from next_prompt run obtain g rest'
        where k: "k = Printf ''debug> '' [] # Call Fflush [Sym ''stdout''] [] # g # rest'"
          and g: "called g = Some Fgets"
        unfolding c s' send_failed(7) by auto
      show ?thesis unfolding t send_failed(7) k using g by simp
    next
      case (sent buf rest name args argc c cmds response sends td reads left)
      have td: "always_followed (\<lambda>e post. ?R e (post @ k)) td"
        by (intro always_followed_all) (auto dest: drain_call [OF sent(6)])
      show ?thesis unfolding t sent(7) using td
        by (cases response) (simp_all add: always_followed_append)
    qed
  qed
qed

lemma shell_body_sends_le_lines:
  assumes "shell_body dp s = (t, c, s')"
  shows "count_list (calls t) Debug_proxy_send_command \<le> count_list (calls t) Fgets"
proof -
  from assms have t: "t = fst (shell_body dp s)" by simp
  show ?thesis
  proof (cases rule: shell_body_cases [of s dp])
    case eof
    show ?thesis unfolding t eof(2) by simp
  next
    case (quit buf rest)
    show ?thesis unfolding t quit(3) by simp
  next
    case (no_command_answer buf rest)
    show ?thesis unfolding t no_command_answer(4) by simp
  next
    case (null_command buf rest name args argc cmds)
    show ?thesis unfolding t null_command(5) by simp
  next
    case (no_send_answer buf rest name args argc c cmds)
    show ?thesis unfolding t no_send_answer(6) by simp
  next
    case (send_failed buf rest name args argc c cmds err response sends)
    show ?thesis unfolding t send_failed(7) by simp
  next
    case (sent buf rest name args argc c cmds response sends td reads left)
    from drain_calls [of dp "read_answers s"] sent(6)
    have "Debug_proxy_send_command \<notin> set (calls td)" "Fgets \<notin> set (calls td)"
      by auto
    then show ?thesis unfolding t sent(7)
      by (cases response) (simp_all add: calls_append)
  qed
qed

lemma shell_sends_le_lines:
  "count_list (calls (fst (shell dp s))) Debug_proxy_send_command
     \<le> count_list (calls (fst (shell dp s))) Fgets"
proof (induction dp s rule: shell_induct)
  case (stopped dp s)
  then show ?case by (simp add: shell_stopped)
next
  case (Break dp s t s')
  with shell_body_sends_le_lines [of dp s t Break s'] show ?case
    by (simp add: shell_Break)
next
  case (Blocked dp s t s')
  with shell_body_sends_le_lines [of dp s t Blocked s'] show ?case
    by (simp add: shell_Blocked)
next
  case (Next dp s t s')
  with shell_body_sends_le_lines [of dp s t Next s'] show ?case
    by (simp add: shell_Next calls_append)
qed

lemma main_sends_le_lines:
  "count_list (calls (fst (main w))) Debug_proxy_send_command
     \<le> count_list (calls (fst (main w))) Fgets"
proof (cases rule: main_cases [of w])
  case (returned t)
  from main_setup_calls [of w] returned(1)
  have "Debug_proxy_send_command \<notin> set (calls t)" by auto
  with returned show ?thesis by simp
next
  case (shell t adapter handshake debug_proxy ts left)
  from main_setup_calls [of w] shell(1)
  have "Debug_proxy_send_command \<notin> set (calls t)" by auto
  with shell shell_sends_le_lines [of debug_proxy "initial_shell_state w"] show ?thesis
    by (simp add: calls_append cleanup_def)
qed

text \<open>
  Claim C6. When \<open>debug_proxy_send_command\<close> returns a code other than
  \<open>IdeviceSuccess\<close>, the driver releases the command, prints the error on \<open>stderr\<close>,
  prints the next prompt and reads the next line: the five events after the failed
  call are the release, the diagnostic, the prompt, \<open>fflush\<close> and \<open>fgets\<close>, so nothing
  is sent again before the user is asked. In a whole run \<open>debug_proxy_send_command\<close> is
  called at most once for each line read, so no command is sent twice.
\<close>

theorem failed_command_not_retried:
  "(\<forall>pre args c rets post.
      fst (main w) = pre @ Call Debug_proxy_send_command args (Code c # rets) # post
      \<and> c \<noteq> IdeviceSuccess \<longrightarrow>
        map called (take 5 post)
          = [Some Debugserver_command_free, None, None, Some Fflush, Some Fgets]
        \<and> take 2 (tl post)
          = [Fprintf_stderr ''Command failed with error: %d\<newline>'' [Code c],
             Printf ''debug> '' []])
   \<and> count_list (calls (fst (main w))) Debug_proxy_send_command
       \<le> count_list (calls (fst (main w))) Fgets"
  using always_followed_decomp [OF send_failure_continues, of w] main_sends_le_lines [of w]
  by blast

theorem failed_command_not_retried_witness:
  "fst (main example_world)
     = take 35 (fst (main example_world))
       @ Call Debug_proxy_send_command [Ptr 7, Ptr 9] (Code (IdeviceFailure (- 3)) # [Null])
       # drop 36 (fst (main example_world))
   \<and> IdeviceFailure (- 3) \<noteq> IdeviceSuccess
   \<and> map called (take 5 (drop 36 (fst (main example_world))))
       = [Some Debugserver_command_free, None, None, Some Fflush, Some Fgets]
   \<and> count_list (calls (fst (main example_world))) Debug_proxy_send_command = 2
   \<and> count_list (calls (fst (main example_world))) Fgets = 3"
proof -
  have d: "fst (main example_world)
     = take 35 (fst (main example_world))
       @ Call Debug_proxy_send_command [Ptr 7, Ptr 9] (Code (IdeviceFailure (- 3)) # [Null])
       # drop 36 (fst (main example_world))"
    by code_simp
  have n: "count_list (calls (fst (main example_world))) Debug_proxy_send_command = 2"
    "count_list (calls (fst (main example_world))) Fgets = 3"
    by code_simp+
  from failed_command_not_retried [of example_world] d n
  show ?thesis by blast
qed

subsection \<open>Draining the replies of a command\<close>

lemma drain_takeWhile:
  "drain dp reads =
     (concat (map (responded dp) (takeWhile available reads))
      @ (case dropWhile available reads of
           [] \<Rightarrow> []
         | (err, response) # rest \<Rightarrow>
             [Call Debug_proxy_read_response [Ptr dp] [Code err, str_val response]]),
      tl (dropWhile available reads),
      dropWhile available reads \<noteq> [])"
proof (induction reads)
  case Nil
  show ?case by simp
next
  case (Cons a reads)
  obtain err response where a: "a = (err, response)" by (cases a)
  show ?case
  proof (cases "available a")
    case True
    with Cons a show ?thesis by simp
  next
    case False
    with a show ?thesis by auto
  qed
qed

lemma drain_then_prompt_drain:
  assumes "drain dp reads = (td, reads', left)"
    and "left \<longrightarrow> take 2 k = [Printf ''debug> '' [], Call Fflush [Sym ''stdout''] []]"
    and "\<not> left \<longrightarrow> k = []"
  shows "drain_then_prompt (td @ k)"
  using assms
proof (induction reads arbitrary: td reads' left)
  case Nil
  then show ?case by simp
next
  case (Cons a reads)
  obtain err response where a: "a = (err, response)" by (cases a)
  show ?case
  proof (cases "err \<noteq> IdeviceSuccess \<or> response = None")
    case True
    with Cons.prems a show ?thesis
      by (auto simp: str_val_def)
  next
    case False
    then obtain r where r: "response = Some r" and e: "err = IdeviceSuccess" by auto
    obtain t reads'' left' where d: "drain dp reads = (t, reads'', left')"
      by (cases "drain dp reads")
    from Cons.prems(1) a r e d
    have td: "td = Call Debug_proxy_read_response [Ptr dp] [Code IdeviceSuccess, Str r]
                # Printf ''%s\<newline>'' [Str r] # Call Idevice_string_free [Str r] [] # t"
      and l: "left = left'"
      by (simp_all add: str_val_def)
    from Cons.IH [OF d] Cons.prems(2,3) l have "drain_then_prompt (t @ k)" by simp
    then show ?thesis unfolding td by simp
  qed
qed

lemma replies_drained:
  "always_followed
     (\<lambda>e post. \<forall>args resp. e = Call Debug_proxy_send_command args [Code IdeviceSuccess, resp] \<longrightarrow>
        map called (take 1 post) = [Some Debugserver_command_free]
        \<and> (if resp = Null
            then take 1 (tl post) = [Printf ''(no response)\<newline>'' []]
                 \<and> drain_then_prompt (drop 2 post)
            else take 2 (tl post) = [Printf ''%s\<newline>'' [resp], Call Idevice_string_free [resp] []]
                 \<and> drain_then_prompt (drop 3 post)))
     (fst (main w))"
  (is "always_followed ?R _")
proof (rule main_always_followed)
  fix t
  assume "main_setup w = (t, Inl 1)"
  then show "always_followed ?R t"
    by (intro always_followed_all) (auto dest: main_setup_not_loop)
next
  fix t h and k :: "event list"
  assume "main_setup w = (t, Inr h)"
  then show "always_followed (\<lambda>e post. ?R e (post @ k)) t"
    by (intro always_followed_all) (auto dest: main_setup_not_loop)
next
  fix fmt post
  show "?R (Printf fmt []) post" by simp
next
  fix dp hs ad
  show "always_followed ?R (cleanup dp hs ad)"
    by (simp add: cleanup_def)
next
  fix t dp hs ad
  show "always_followed
          (\<lambda>e post. ?R e (post @ (if snd (shell dp (initial_shell_state w))
                                    then cleanup dp hs ad else [])))
          (fst (shell dp (initial_shell_state w)))"
  proof (rule shell_always_followed)
    fix s t c s' and k :: "event list"
    assume run: "running s" and body: "shell_body dp s = (t, c, s')"
      and blocked: "c = Blocked \<longrightarrow> k = []"
      and next_prompt: "c = Next \<and> running s' \<longrightarrow>
         (\<exists>g rest. k = Printf ''debug> '' [] # Call Fflush [Sym ''stdout''] [] # g # rest
            \<and> called g = Some Fgets)"
    from body have t: "t = fst (shell_body dp s)" and c: "c = fst (snd (shell_body dp s))"
      and s': "s' = snd (snd (shell_body dp s))"
      by simp_all
    show "always_followed (\<lambda>e post. ?R e (post @ k)) t"
    proof (cases rule: shell_body_cases [of s dp])
      case eof
      show ?thesis unfolding t eof(2) by simp
    next
      case (quit buf rest)
      show ?thesis unfolding t quit(3) by simp
    next
      case (no_command_answer buf rest)
      show ?thesis unfolding t no_command_answer(4) by simp
    next
      case (null_command buf rest name args argc cmds)
      show ?thesis unfolding t null_command(5) by simp
    next
      case (no_send_answer buf rest name args argc c cmds)
      show ?thesis unfolding t no_send_answer(6) by simp
    next
      case (send_failed buf rest name args argc cmd cmds err response sends)
      show ?thesis unfolding t send_failed(7) using send_failed(6) by simp
    next
      case (sent buf rest name args argc cmd cmds response sends td reads left)
      have td: "always_followed (\<lambda>e post. ?R e (post @ k)) td"
        by (intro always_followed_all) (auto dest: drain_call [OF sent(6)])
      have k1: "left \<longrightarrow> take 2 k = [Printf ''debug> '' [], Call Fflush [Sym ''stdout''] []]"
        using next_prompt run unfolding c s' sent(7) by auto
      have k2: "\<not> left \<longrightarrow> k = []"
        using blocked unfolding c sent(7) by simp
      have dr: "drain_then_prompt (td @ k)"
        by (rule drain_then_prompt_drain [OF sent(6) k1 k2])
      show ?thesis unfolding t sent(7) using td dr
        by (cases response) (simp_all add: always_followed_append str_val_def)
    qed
  qed
qed

text \<open>
  Claim C2. The drain loop calls \<open>debug_proxy_read_response\<close> again and again: for
  each answer that is \<open>IdeviceSuccess\<close> with a response it prints and releases that
  response, in the order of the answers, and it is left exactly at the first answer
  that is another code or NULL. In a run of \<open>main\<close>, what follows a command that was sent
  with success is the release of the command, the print of its response (or
  \<open>(no response)\<close>), and then these calls; the next prompt comes only after the call
  that ends the drain, and nothing comes while a call has not come back.
\<close>

theorem replies_drained_before_next_prompt:
  "drain dp reads =
     (concat (map (responded dp) (takeWhile available reads))
      @ (case dropWhile available reads of
           [] \<Rightarrow> []
         | (err, response) # rest \<Rightarrow>
             [Call Debug_proxy_read_response [Ptr dp] [Code err, str_val response]]),
      tl (dropWhile available reads),
      dropWhile available reads \<noteq> [])
   \<and> (\<forall>pre args resp post.
        fst (main w) = pre @ Call Debug_proxy_send_command args [Code IdeviceSuccess, resp] # post \<longrightarrow>
        map called (take 1 post) = [Some Debugserver_command_free]
        \<and> (if resp = Null
            then take 1 (tl post) = [Printf ''(no response)\<newline>'' []]
                 \<and> drain_then_prompt (drop 2 post)
            else take 2 (tl post) = [Printf ''%s\<newline>'' [resp], Call Idevice_string_free [resp] []]
                 \<and> drain_then_prompt (drop 3 post)))"
  using drain_takeWhile [of dp reads] always_followed_decomp [OF replies_drained, of w]
  by blast

theorem replies_drained_before_next_prompt_witness:
  "fst (main example_world)
     = take 23 (fst (main example_world))
       @ Call Debug_proxy_send_command [Ptr 7, Ptr 8] [Code IdeviceSuccess, Str ''r0'']
       # drop 24 (fst (main example_world))
   \<and> drain_then_prompt (drop 27 (fst (main example_world)))
   \<and> take 9 (drop 24 (fst (main example_world)))
       = [Call Debugserver_command_free [Ptr 8] [],
          Printf ''%s\<newline>'' [Str ''r0''],
          Call Idevice_string_free [Str ''r0''] [],
          Call Debug_proxy_read_response [Ptr 7] [Code IdeviceSuccess, Str ''r1''],
          Printf ''%s\<newline>'' [Str ''r1''],
          Call Idevice_string_free [Str ''r1''] [],
          Call Debug_proxy_read_response [Ptr 7] [Code (IdeviceFailure (- 1)), Null],
          Printf ''debug> '' [],
          Call Fflush [Sym ''stdout''] []]
   \<and> snd (snd (drain 7 [(IdeviceSuccess, Some ''r1''), (IdeviceFailure (- 1), None)]))"
proof -
  have d: "fst (main example_world)
     = take 23 (fst (main example_world))
       @ Call Debug_proxy_send_command [Ptr 7, Ptr 8] [Code IdeviceSuccess, Str ''r0'']
       # drop 24 (fst (main example_world))"
    by code_simp
  have t: "take 9 (drop 24 (fst (main example_world)))
       = [Call Debugserver_command_free [Ptr 8] [],
          Printf ''%s\<newline>'' [Str ''r0''],
          Call Idevice_string_free [Str ''r0''] [],
          Call Debug_proxy_read_response [Ptr 7] [Code IdeviceSuccess, Str ''r1''],
          Printf ''%s\<newline>'' [Str ''r1''],
          Call Idevice_string_free [Str ''r1''] [],
          Call Debug_proxy_read_response [Ptr 7] [Code (IdeviceFailure (- 1)), Null],
          Printf ''debug> '' [],
          Call Fflush [Sym ''stdout''] []]"
    by code_simp
  have a: "dropWhile available [(IdeviceSuccess, Some ''r1''), (IdeviceFailure (- 1), None)] \<noteq> []"
    by simp
  note th = replies_drained_before_next_prompt
         [of 7 "[(IdeviceSuccess, Some ''r1''), (IdeviceFailure (- 1), None)]" example_world]
  from conjunct1 [OF th] a
  have 1: "snd (snd (drain 7 [(IdeviceSuccess, Some ''r1''), (IdeviceFailure (- 1), None)]))"
    by simp
  from conjunct2 [OF th, rule_format, OF d]
  have 3: "drain_then_prompt (drop 27 (fst (main example_world)))"
    by simp
  from d t 1 3 show ?thesis by blast
qed

subsection \<open>Leaving the loop\<close>

lemma loop_ends_Call: "loop_ends e \<Longrightarrow> \<exists>a r. e = Call Fgets a r"
  by (induction e rule: loop_ends.induct) simp_all

lemma main_setup_success:
  "case main_setup w of
     (t, Inl c) \<Rightarrow> True
   | (t, Inr (ad, hs, dp)) \<Rightarrow>
       ad = snd (create_tcp_adapter_result w) \<and> hs = snd (rsd_handshake_new_result w)
       \<and> dp = snd (debug_proxy_connect_rsd_result w)
       \<and> calls t =
           [Idevice_init_logger, Inet_pton, Idevice_pairing_file_read, Idevice_tcp_provider_new,
            Core_device_proxy_connect, Idevice_provider_free,
            Core_device_proxy_get_server_rsd_port, Core_device_proxy_create_tcp_adapter,
            Adapter_connect, Rsd_handshake_new, Debug_proxy_connect_rsd]"
  by (simp add: main_setup_def Let_def split_def print_usage_def)

lemma main_setup_handles:
  "case main_setup w of
     (t, Inl c) \<Rightarrow> True
   | (t, Inr h) \<Rightarrow>
       Call Core_device_proxy_create_tcp_adapter [Ptr (snd (core_device_proxy_connect_result w))]
         [Code IdeviceSuccess, Ptr (snd (create_tcp_adapter_result w))] \<in> set t
       \<and> Call Rsd_handshake_new [Ptr (snd (adapter_connect_result w))]
           [Code IdeviceSuccess, Ptr (snd (rsd_handshake_new_result w))] \<in> set t
       \<and> Call Debug_proxy_connect_rsd
           [Ptr (snd (create_tcp_adapter_result w)), Ptr (snd (rsd_handshake_new_result w))]
           [Code IdeviceSuccess, Ptr (snd (debug_proxy_connect_rsd_result w))] \<in> set t"
  by (simp add: main_setup_def Let_def split_def print_usage_def)

lemma shell_left_last:
  "running s \<Longrightarrow> snd (shell dp s) \<Longrightarrow>
     fst (shell dp s) \<noteq> [] \<and> loop_ends (last (fst (shell dp s)))"
proof (induction dp s rule: shell_induct)
  case (stopped dp s)
  then show ?case by simp
next
  case (Break dp s t s')
  from Break(2) have t: "t = fst (shell_body dp s)" and c: "Break = fst (snd (shell_body dp s))"
    by simp_all
  from c have "t \<noteq> [] \<and> loop_ends (last t)"
  proof (cases rule: shell_body_cases [of s dp])
    case eof
    show ?thesis unfolding t eof(2) by simp
  next
    case (sent buf rest name args argc cmd cmds response sends td reads left)
    with c show ?thesis by (simp split: if_splits)
  qed simp_all
  with Break show ?case by (simp add: shell_Break)
next
  case (Blocked dp s t s')
  then show ?case by (simp add: shell_Blocked)
next
  case (Next dp s t s')
  note nxt = Next
  show ?case
  proof (cases "running s'")
    case True
    with nxt have "fst (shell dp s') \<noteq> [] \<and> loop_ends (last (fst (shell dp s')))"
      by (simp add: shell_Next)
    with nxt show ?thesis by (simp add: shell_Next)
  next
    case False
    from nxt(2) have t: "t = fst (shell_body dp s)"
      and c: "Next = fst (snd (shell_body dp s))"
      and s': "s' = snd (snd (shell_body dp s))"
      by simp_all
    from False nxt(1) have "t \<noteq> [] \<and> loop_ends (last t)"
      unfolding s'
    proof (cases rule: shell_body_cases [of s dp])
      case (quit buf rest)
      show ?thesis unfolding t quit(3) using quit(2) by simp
    qed simp_all
    with nxt False show ?thesis
      by (simp add: shell_Next shell_stopped)
  qed
qed

lemma loop_ends_then_cleanup:
  "always_followed
     (\<lambda>e post. loop_ends e \<longrightarrow>
        post = cleanup (snd (debug_proxy_connect_rsd_result w)) (snd (rsd_handshake_new_result w))
                 (snd (create_tcp_adapter_result w)))
     (fst (main w))"
  (is "always_followed ?R _")
proof (rule main_always_followed)
  fix t
  assume "main_setup w = (t, Inl 1)"
  then show "always_followed ?R t"
    by (intro always_followed_all) (auto dest: main_setup_not_loop loop_ends_Call)
next
  fix t h and k :: "event list"
  assume "main_setup w = (t, Inr h)"
  then show "always_followed (\<lambda>e post. ?R e (post @ k)) t"
    by (intro always_followed_all) (auto dest: main_setup_not_loop loop_ends_Call)
next
  fix fmt post
  show "?R (Printf fmt []) post" by simp
next
  fix dp hs ad
  show "always_followed ?R (cleanup dp hs ad)"
    by (simp add: cleanup_def)
next
  fix t dp hs ad
  assume "main_setup w = (t, Inr (ad, hs, dp))"
  with main_setup_success [of w]
  have h: "cleanup (snd (debug_proxy_connect_rsd_result w)) (snd (rsd_handshake_new_result w))
                 (snd (create_tcp_adapter_result w)) = cleanup dp hs ad"
    by simp
  show "always_followed
          (\<lambda>e post. ?R e (post @ (if snd (shell dp (initial_shell_state w))
                                    then cleanup dp hs ad else [])))
          (fst (shell dp (initial_shell_state w)))"
    unfolding h
  proof (rule shell_always_followed)
    fix s t c s' and k :: "event list"
    assume run: "running s" and body: "shell_body dp s = (t, c, s')"
      and left: "c = Break \<or> (c = Next \<and> \<not> running s') \<longrightarrow> k = cleanup dp hs ad"
    from body have t: "t = fst (shell_body dp s)" and c: "c = fst (snd (shell_body dp s))"
      and s': "s' = snd (snd (shell_body dp s))"
      by simp_all
    show "always_followed (\<lambda>e post. loop_ends e \<longrightarrow> post @ k = cleanup dp hs ad) t"
    proof (cases rule: shell_body_cases [of s dp])
      case eof
      from left have "k = cleanup dp hs ad" unfolding c eof(2) by simp
      then show ?thesis unfolding t eof(2) by simp
    next
      case (quit buf rest)
      from left have "k = cleanup dp hs ad" unfolding c s' quit(3) by simp
      then show ?thesis unfolding t quit(3) by simp
    next
      case (no_command_answer buf rest)
      show ?thesis unfolding t no_command_answer(4) using no_command_answer(2) by simp
    next
      case (null_command buf rest name args argc cmds)
      show ?thesis unfolding t null_command(5) using null_command(2) by simp
    next
      case (no_send_answer buf rest name args argc c cmds)
      show ?thesis unfolding t no_send_answer(6) using no_send_answer(2) by simp
    next
      case (send_failed buf rest name args argc cmd cmds err response sends)
      show ?thesis unfolding t send_failed(7) using send_failed(2) by simp
    next
      case (sent buf rest name args argc cmd cmds response sends td reads left)
      have td: "always_followed (\<lambda>e post. loop_ends e \<longrightarrow> post @ k = cleanup dp hs ad) td"
        by (intro always_followed_all) (auto dest: drain_call [OF sent(6)] loop_ends_Call)
      show ?thesis unfolding t sent(7) using td sent(2)
        by (cases response) (simp_all add: always_followed_append)
    qed
  qed
qed

text \<open>
  The loop is left whenever the outside answers: standard input is finite, so with an
  answer for every command that can be read, and for every command an answer of
  \<open>debug_proxy_read_response\<close> that ends the drain, no run stays in the loop.
\<close>

lemma filter_not_available:
  "length (filter (\<lambda>a. \<not> available a) reads)
     = length (filter (\<lambda>a. \<not> available a) (dropWhile available reads))"
  by (induction reads) auto

lemma drain_stops:
  assumes "drain dp reads = (td, reads', left)"
    and "0 < length (filter (\<lambda>a. \<not> available a) reads)"
  shows "left \<and> length (filter (\<lambda>a. \<not> available a) reads)
              = Suc (length (filter (\<lambda>a. \<not> available a) reads'))"
proof -
  from assms(1) have r: "reads' = tl (dropWhile available reads)"
    and l: "left = (dropWhile available reads \<noteq> [])"
    by (simp_all add: drain_takeWhile)
  have n: "dropWhile available reads \<noteq> []"
  proof
    assume "dropWhile available reads = []"
    with filter_not_available [of reads] assms(2) show False by simp
  qed
  then obtain a rest where d: "dropWhile available reads = a # rest"
    by (cases "dropWhile available reads") auto
  have "\<not> available a"
    using hd_dropWhile [of available reads] n d by simp
  with d r l filter_not_available [of reads] show ?thesis by simp
qed

lemma fgets_shorter:
  assumes "fgets MAX_COMMAND_LENGTH stream = Some (buf, rest)"
  shows "length rest < length stream"
  using assms by (auto simp: fgets_def Let_def MAX_COMMAND_LENGTH_def split: if_splits)

lemma shell_left_enough:
  "length (input s) \<le> length (command_answers s) \<Longrightarrow>
   length (input s) \<le> length (send_answers s) \<Longrightarrow>
   length (input s) \<le> length (filter (\<lambda>a. \<not> available a) (read_answers s)) \<Longrightarrow>
   snd (shell dp s)"
proof (induction dp s rule: shell_induct)
  case (stopped dp s)
  then show ?case by (simp add: shell_stopped)
next
  case (Break dp s t s')
  then show ?case by (simp add: shell_Break)
next
  case (Blocked dp s t s')
  note blocked = Blocked
  from blocked(2) have c: "Blocked = fst (snd (shell_body dp s))" by simp
  have False
  proof (cases rule: shell_body_cases [of s dp])
    case eof
    with c show ?thesis by simp
  next
    case (quit buf rest)
    with c show ?thesis by simp
  next
    case (no_command_answer buf rest)
    with fgets_shorter [OF no_command_answer(1)] blocked(3) show ?thesis by simp
  next
    case (null_command buf rest name args argc cmds)
    with c show ?thesis by simp
  next
    case (no_send_answer buf rest name args argc cmd cmds)
    with fgets_shorter [OF no_send_answer(1)] blocked(4) show ?thesis by simp
  next
    case (send_failed buf rest name args argc cmd cmds err response sends)
    with c show ?thesis by simp
  next
    case (sent buf rest name args argc cmd cmds response sends td reads left)
    from fgets_shorter [OF sent(1)] blocked(5)
    have "0 < length (filter (\<lambda>a. \<not> available a) (read_answers s))" by linarith
    from drain_stops [OF sent(6) this] have left by simp
    with c sent(7) show ?thesis by simp
  qed
  then show ?case ..
next
  case (Next dp s t s')
  note nxt = Next
  from nxt(2) have s': "s' = snd (snd (shell_body dp s))" by simp
  have "\<not> running s' \<or>
     (length (input s') \<le> length (command_answers s')
      \<and> length (input s') \<le> length (send_answers s')
      \<and> length (input s') \<le> length (filter (\<lambda>a. \<not> available a) (read_answers s')))"
  proof (cases rule: shell_body_cases [of s dp])
    case eof
    with nxt(2) show ?thesis by simp
  next
    case (quit buf rest)
    show ?thesis unfolding s' quit(3) by simp
  next
    case (no_command_answer buf rest)
    with nxt(2) show ?thesis by simp
  next
    case (null_command buf rest name args argc cmds)
    from fgets_shorter [OF null_command(1)] nxt(4,5,6) null_command(4)
    show ?thesis unfolding s' null_command(5) by simp
  next
    case (no_send_answer buf rest name args argc cmd cmds)
    with nxt(2) show ?thesis by simp
  next
    case (send_failed buf rest name args argc cmd cmds err response sends)
    from fgets_shorter [OF send_failed(1)] nxt(4,5,6) send_failed(4,5)
    show ?thesis unfolding s' send_failed(7) by simp
  next
    case (sent buf rest name args argc cmd cmds response sends td reads left)
    from fgets_shorter [OF sent(1)] nxt(6)
    have "0 < length (filter (\<lambda>a. \<not> available a) (read_answers s))" by linarith
    from drain_stops [OF sent(6) this] fgets_shorter [OF sent(1)] nxt(4,5,6) sent(4,5)
    show ?thesis unfolding s' sent(7) by simp
  qed
  then have "snd (shell dp s')"
  proof
    assume "\<not> running s'"
    then show ?thesis by (simp add: shell_stopped)
  next
    assume "length (input s') \<le> length (command_answers s')
      \<and> length (input s') \<le> length (send_answers s')
      \<and> length (input s') \<le> length (filter (\<lambda>a. \<not> available a) (read_answers s'))"
    then show ?thesis using nxt(3) by simp
  qed
  with nxt(1,2) show ?case by (simp add: shell_Next)
qed

text \<open>
  Claim C9. A run of \<open>main\<close> returns 0 exactly when, in its loop, \<open>fgets\<close>
  returned NULL or read a line that is \<open>quit\<close> once its newline is removed. That
  event ends the loop: what follows it is the release of the debug proxy, of the
  handshake and of the adapter, in this order, then the closing line, and nothing else,
  so the line \<open>quit\<close> is neither constructed nor sent. The three handles released are
  those that \<open>debug_proxy_connect_rsd\<close>, \<open>rsd_handshake_new\<close> and
  \<open>core_device_proxy_create_tcp_adapter\<close> returned, with success, before the loop ended,
  and each of the three release functions is called exactly once in the run. A run whose
  setup succeeded and in which the outside has an answer for every command that can be
  read, and for each an answer that ends the drain, does return 0.
\<close>

theorem loop_ends_at_eof_or_quit:
  "(snd (main w) = Returned 0 \<longleftrightarrow> (\<exists>e\<in>set (fst (main w)). loop_ends e))
   \<and> (\<forall>pre e post. fst (main w) = pre @ e # post \<and> loop_ends e \<longrightarrow>
        post = [Call Debug_proxy_free [Ptr (snd (debug_proxy_connect_rsd_result w))] [],
                Call Rsd_handshake_free [Ptr (snd (rsd_handshake_new_result w))] [],
                Call Adapter_free [Ptr (snd (create_tcp_adapter_result w))] [],
                Printf ''\<newline>Debug session ended\<newline>'' []]
        \<and> Call Core_device_proxy_create_tcp_adapter
             [Ptr (snd (core_device_proxy_connect_result w))]
             [Code IdeviceSuccess, Ptr (snd (create_tcp_adapter_result w))] \<in> set pre
        \<and> Call Rsd_handshake_new [Ptr (snd (adapter_connect_result w))]
             [Code IdeviceSuccess, Ptr (snd (rsd_handshake_new_result w))] \<in> set pre
        \<and> Call Debug_proxy_connect_rsd
             [Ptr (snd (create_tcp_adapter_result w)), Ptr (snd (rsd_handshake_new_result w))]
             [Code IdeviceSuccess, Ptr (snd (debug_proxy_connect_rsd_result w))] \<in> set pre
        \<and> count_list (calls (fst (main w))) Debug_proxy_free = 1
        \<and> count_list (calls (fst (main w))) Rsd_handshake_free = 1
        \<and> count_list (calls (fst (main w))) Adapter_free = 1
        \<and> snd (main w) = Returned 0)
   \<and> ((\<exists>t h. main_setup w = (t, Inr h))
        \<and> length (stdin w) \<le> length (command_new_results w)
        \<and> length (stdin w) \<le> length (send_command_results w)
        \<and> length (stdin w) \<le> length (filter (\<lambda>a. \<not> available a) (read_response_results w)) \<longrightarrow>
        snd (main w) = Returned 0)"
proof -
  let ?c = "cleanup (snd (debug_proxy_connect_rsd_result w)) (snd (rsd_handshake_new_result w))
                 (snd (create_tcp_adapter_result w))"
  let ?ad = "Call Core_device_proxy_create_tcp_adapter
             [Ptr (snd (core_device_proxy_connect_result w))]
             [Code IdeviceSuccess, Ptr (snd (create_tcp_adapter_result w))]"
  let ?hs = "Call Rsd_handshake_new [Ptr (snd (adapter_connect_result w))]
             [Code IdeviceSuccess, Ptr (snd (rsd_handshake_new_result w))]"
  let ?dp = "Call Debug_proxy_connect_rsd
             [Ptr (snd (create_tcp_adapter_result w)), Ptr (snd (rsd_handshake_new_result w))]
             [Code IdeviceSuccess, Ptr (snd (debug_proxy_connect_rsd_result w))]"
  have after: "post = [Call Debug_proxy_free [Ptr (snd (debug_proxy_connect_rsd_result w))] [],
                Call Rsd_handshake_free [Ptr (snd (rsd_handshake_new_result w))] [],
                Call Adapter_free [Ptr (snd (create_tcp_adapter_result w))] [],
                Printf ''\<newline>Debug session ended\<newline>'' []]
        \<and> ?ad \<in> set pre \<and> ?hs \<in> set pre \<and> ?dp \<in> set pre
        \<and> count_list (calls (fst (main w))) Debug_proxy_free = 1
        \<and> count_list (calls (fst (main w))) Rsd_handshake_free = 1
        \<and> count_list (calls (fst (main w))) Adapter_free = 1
        \<and> snd (main w) = Returned 0"
    if d: "fst (main w) = pre @ e # post" and le: "loop_ends e" for pre e post
  proof -
    from always_followed_decomp [OF loop_ends_then_cleanup d] le have post: "post = ?c" by simp
    from le obtain a r where e: "e = Call Fgets a r" using loop_ends_Call by blast
    show ?thesis
    proof (cases rule: main_cases [of w])
      case (returned t)
      with d e have "Call Fgets a r \<in> set t" by simp
      with main_setup_not_loop [OF returned(1), of Fgets a r] show ?thesis by simp
    next
      case (shell t adapter handshake debug_proxy ts left)
      from main_setup_success [of w] shell(1)
      have h: "?c = cleanup debug_proxy handshake adapter"
        and ct: "calls t =
           [Idevice_init_logger, Inet_pton, Idevice_pairing_file_read, Idevice_tcp_provider_new,
            Core_device_proxy_connect, Idevice_provider_free,
            Core_device_proxy_get_server_rsd_port, Core_device_proxy_create_tcp_adapter,
            Adapter_connect, Rsd_handshake_new, Debug_proxy_connect_rsd]"
        by simp_all
      from main_setup_handles [of w] shell(1)
      have made: "?ad \<in> set t" "?hs \<in> set t" "?dp \<in> set t"
        by simp_all
      define body where "body = t @ [Printf ''\<newline>=== Starting Interactive Debug Shell ===\<newline>'' [],
                  Printf ''Type GDB debugserver commands or 'quit' to exit\<newline>\<newline>'' []] @ ts"
      from shell_calls [of debug_proxy "initial_shell_state w"] shell(2) ct
      have none: "Debug_proxy_free \<notin> set (calls body)" "Rsd_handshake_free \<notin> set (calls body)"
        "Adapter_free \<notin> set (calls body)"
        by (auto simp: calls_append body_def)
      from shell(3) have m: "fst (main w) = body @ (if left then cleanup debug_proxy handshake adapter else [])"
        and o: "snd (main w) = (if left then Returned 0 else Pending)"
        by (simp_all add: body_def)
      have left
      proof (rule ccontr)
        assume "\<not> left"
        with m d post h have "body = pre @ e # cleanup debug_proxy handshake adapter"
          by simp
        then have "Debug_proxy_free \<in> set (calls body)"
          by (simp add: calls_append cleanup_def e)
        with none show False by simp
      qed
      with m o have tr: "fst (main w) = body @ cleanup debug_proxy handshake adapter"
        and out: "snd (main w) = Returned 0"
        by simp_all
      from tr d post h have "(pre @ [e]) @ post = body @ post" by simp
      then have body: "body = pre @ [e]" by simp
      from made have "?ad \<in> set body" "?hs \<in> set body" "?dp \<in> set body"
        by (simp_all add: body_def)
      then have pre: "?ad \<in> set pre" "?hs \<in> set pre" "?dp \<in> set pre"
        unfolding body e by simp_all
      from none have "count_list (calls (fst (main w))) Debug_proxy_free = 1"
        "count_list (calls (fst (main w))) Rsd_handshake_free = 1"
        "count_list (calls (fst (main w))) Adapter_free = 1"
        unfolding tr by (simp_all add: calls_append cleanup_def)
      with post out pre show ?thesis by (simp add: cleanup_def)
    qed
  qed
  have returns: "\<exists>e\<in>set (fst (main w)). loop_ends e" if r: "snd (main w) = Returned 0"
  proof (cases rule: main_cases [of w])
    case (returned t)
    with r show ?thesis by simp
  next
    case (shell t adapter handshake debug_proxy ts left)
    with r have left by (simp split: if_splits)
    with shell(2) shell_left_last [of "initial_shell_state w" debug_proxy]
    have "ts \<noteq> []" and "loop_ends (last ts)"
      by (simp_all add: initial_shell_state_def)
    then have "last ts \<in> set ts" and "loop_ends (last ts)" by simp_all
    with shell(3) show ?thesis by auto
  qed
  have iff: "snd (main w) = Returned 0 \<longleftrightarrow> (\<exists>e\<in>set (fst (main w)). loop_ends e)"
  proof
    assume "snd (main w) = Returned 0"
    then show "\<exists>e\<in>set (fst (main w)). loop_ends e" by (rule returns)
  next
    assume "\<exists>e\<in>set (fst (main w)). loop_ends e"
    then obtain e where e: "e \<in> set (fst (main w))" and le: "loop_ends e" by blast
    from e obtain pre post where "fst (main w) = pre @ e # post"
      by (meson split_list)
    from after [OF this le] show "snd (main w) = Returned 0" by simp
  qed
  have enough: "snd (main w) = Returned 0"
    if "(\<exists>t h. main_setup w = (t, Inr h))
        \<and> length (stdin w) \<le> length (command_new_results w)
        \<and> length (stdin w) \<le> length (send_command_results w)
        \<and> length (stdin w) \<le> length (filter (\<lambda>a. \<not> available a) (read_response_results w))"
  proof (cases rule: main_cases [of w])
    case (returned t)
    with that show ?thesis by simp
  next
    case (shell t adapter handshake debug_proxy ts left)
    from that shell_left_enough [of "initial_shell_state w" debug_proxy] shell(2)
    have left by (simp add: initial_shell_state_def)
    with shell(3) show ?thesis by simp
  qed
  from iff after enough show ?thesis by blast
qed

theorem loop_ends_at_eof_or_quit_witness:
  "snd (main example_world) = Returned 0
   \<and> fst (main example_world)
       = take 40 (fst (main example_world))
         @ Call Fgets [Num 1024, Sym ''stdin''] [Str ''quit\<newline>'']
         # drop 41 (fst (main example_world))
   \<and> loop_ends (Call Fgets [Num 1024, Sym ''stdin''] [Str ''quit\<newline>''])
   \<and> drop 41 (fst (main example_world))
       = [Call Debug_proxy_free [Ptr 7] [], Call Rsd_handshake_free [Ptr 6] [],
          Call Adapter_free [Ptr 4] [], Printf ''\<newline>Debug session ended\<newline>'' []]
   \<and> Call Debug_proxy_connect_rsd [Ptr 4, Ptr 6] [Code IdeviceSuccess, Ptr 7]
       \<in> set (take 40 (fst (main example_world)))
   \<and> count_list (calls (fst (main example_world))) Adapter_free = 1"
proof -
  have d: "fst (main example_world)
       = take 40 (fst (main example_world))
         @ Call Fgets [Num 1024, Sym ''stdin''] [Str ''quit\<newline>'']
         # drop 41 (fst (main example_world))"
    by code_simp
  have l: "loop_ends (Call Fgets [Num 1024, Sym ''stdin''] [Str ''quit\<newline>''])"
    by code_simp
  have c: "snd (debug_proxy_connect_rsd_result example_world) = 7"
    "snd (rsd_handshake_new_result example_world) = 6"
    "snd (create_tcp_adapter_result example_world) = 4"
    by (simp_all add: example_world_def)
  from conjunct1 [OF conjunct2 [OF loop_ends_at_eof_or_quit [of example_world]], rule_format,
         of "take 40 (fst (main example_world))"
            "Call Fgets [Num 1024, Sym ''stdin''] [Str ''quit\<newline>'']"
            "drop 41 (fst (main example_world))"]
    d l
  have "drop 41 (fst (main example_world))
       = [Call Debug_proxy_free [Ptr (snd (debug_proxy_connect_rsd_result example_world))] [],
          Call Rsd_handshake_free [Ptr (snd (rsd_handshake_new_result example_world))] [],
          Call Adapter_free [Ptr (snd (create_tcp_adapter_result example_world))] [],
          Printf ''\<newline>Debug session ended\<newline>'' []]
     \<and> Call Debug_proxy_connect_rsd
         [Ptr (snd (create_tcp_adapter_result example_world)),
          Ptr (snd (rsd_handshake_new_result example_world))]
         [Code IdeviceSuccess, Ptr (snd (debug_proxy_connect_rsd_result example_world))]
       \<in> set (take 40 (fst (main example_world)))
     \<and> count_list (calls (fst (main example_world))) Adapter_free = 1
     \<and> snd (main example_world) = Returned 0"
    by blast
  then have "drop 41 (fst (main example_world))
       = [Call Debug_proxy_free [Ptr 7] [], Call Rsd_handshake_free [Ptr 6] [],
          Call Adapter_free [Ptr 4] [], Printf ''\<newline>Debug session ended\<newline>'' []]
     \<and> Call Debug_proxy_connect_rsd [Ptr 4, Ptr 6] [Code IdeviceSuccess, Ptr 7]
       \<in> set (take 40 (fst (main example_world)))
     \<and> count_list (calls (fst (main example_world))) Adapter_free = 1
     \<and> snd (main example_world) = Returned 0"
    unfolding c .
  with d l show ?thesis by blast
qed

end
